theory Spec2Isabelle
  imports Complex_Main
begin

section \<open>Board model\<close>

text \<open>
  The two symbols of \<^verbatim>\<open>App.jsx\<close> are the strings \<^verbatim>\<open>'X'\<close> and \<^verbatim>\<open>'O'\<close>. A cell of the
  board array holds \<^verbatim>\<open>null\<close> (here \<open>None\<close>) or one of the two symbols.
\<close>

datatype mark = SymX | SymO

type_synonym cell = "mark option"

type_synonym board = "cell list"

text \<open>
  Reading a JavaScript array out of range yields \<^verbatim>\<open>undefined\<close>: the outer \<open>None\<close>.
  \<open>Some None\<close> is a stored \<^verbatim>\<open>null\<close>, \<open>Some (Some m)\<close> a stored symbol.
\<close>

definition cellAt :: "board \<Rightarrow> nat \<Rightarrow> cell option" where
  "cellAt board i = (if i < length board then Some (board ! i) else None)"

text \<open>\<^verbatim>\<open>const LINES = [[0,1,2],[3,4,5],[6,7,8],[0,3,6],[1,4,7],[2,5,8],[0,4,8],[2,4,6]]\<close>\<close>

definition LINES :: "(nat \<times> nat \<times> nat) list" where
  "LINES = [(0, 1, 2), (3, 4, 5), (6, 7, 8), (0, 3, 6), (1, 4, 7), (2, 5, 8), (0, 4, 8), (2, 4, 6)]"

text \<open>\<^verbatim>\<open>const emptyBoard = () => Array(9).fill(null)\<close>\<close>

definition emptyBoard :: board where
  "emptyBoard = replicate 9 None"

record winResult =
  symbol :: mark
  line :: "nat list"

text \<open>
  The test of the loop body of \<^verbatim>\<open>winnerInfo\<close>:
  \<^verbatim>\<open>board[a] && board[a] === board[b] && board[a] === board[c]\<close>.
  \<^verbatim>\<open>null\<close> and \<^verbatim>\<open>undefined\<close> are falsy, a symbol is truthy; the result is the symbol
  at \<open>a\<close> when the test succeeds.
\<close>

definition lineTest :: "board \<Rightarrow> nat \<times> nat \<times> nat \<Rightarrow> mark option" where
  "lineTest board l =
     (case l of (a, b, c) \<Rightarrow>
        (case cellAt board a of
           Some (Some m) \<Rightarrow>
             if cellAt board a = cellAt board b \<and> cellAt board a = cellAt board c
             then Some m else None
         | _ \<Rightarrow> None))"

text \<open>
  \<^verbatim>\<open>for (const [a, b, c] of LINES) { if (...) return { symbol: board[a], line: [a, b, c] } }
  return null\<close>
\<close>

fun scanLines :: "board \<Rightarrow> (nat \<times> nat \<times> nat) list \<Rightarrow> winResult option" where
  "scanLines board [] = None"
| "scanLines board ((a, b, c) # rest) =
     (case lineTest board (a, b, c) of
        Some m \<Rightarrow> Some \<lparr>symbol = m, line = [a, b, c]\<rparr>
      | None \<Rightarrow> scanLines board rest)"

definition winnerInfo :: "board \<Rightarrow> winResult option" where
  "winnerInfo board = scanLines board LINES"

text \<open>\<^verbatim>\<open>const isFull = (board) => board.every((cell) => cell !== null)\<close>\<close>

definition isFull :: "board \<Rightarrow> bool" where
  "isFull board = list_all (\<lambda>cell. cell \<noteq> None) board"

section \<open>Move search engine\<close>

text \<open>
  Scores are JavaScript numbers: the search starts from \<^verbatim>\<open>-Infinity\<close> or \<^verbatim>\<open>Infinity\<close>
  and otherwise handles small integers only, which doubles represent exactly.
\<close>

datatype jsnum = NegInf | Fin int | PosInf

instantiation jsnum :: linorder
begin

fun less_eq_jsnum :: "jsnum \<Rightarrow> jsnum \<Rightarrow> bool" where
  "less_eq_jsnum NegInf _ = True"
| "less_eq_jsnum (Fin a) NegInf = False"
| "less_eq_jsnum (Fin a) (Fin b) = (a \<le> b)"
| "less_eq_jsnum (Fin a) PosInf = True"
| "less_eq_jsnum PosInf PosInf = True"
| "less_eq_jsnum PosInf _ = False"

definition less_jsnum :: "jsnum \<Rightarrow> jsnum \<Rightarrow> bool" where
  "less_jsnum a b = (a \<le> b \<and> \<not> b \<le> a)"

instance
proof
  fix x y z :: jsnum
  show "(x < y) = (x \<le> y \<and> \<not> y \<le> x)" by (simp add: less_jsnum_def)
  show "x \<le> x" by (cases x) simp_all
  show "x \<le> y \<Longrightarrow> y \<le> z \<Longrightarrow> x \<le> z" by (cases x; cases y; cases z) simp_all
  show "x \<le> y \<Longrightarrow> y \<le> x \<Longrightarrow> x = y" by (cases x; cases y) simp_all
  show "x \<le> y \<or> y \<le> x" by (cases x; cases y) auto
qed

end

text \<open>
  \<^verbatim>\<open>minimax(board, depth, isMax, ai, human)\<close> writes into the array it is given and
  restores each cell after the recursive call, so the model threads the board through:
  every function returns the score together with the array as it is left. The
  recursion of the source is bounded only by the board filling up, which the model
  cannot see through the returned array; it therefore carries fuel, one unit per call
  and per loop iteration, and \<open>None\<close> means the fuel ran out.

  \<^verbatim>\<open>depth\<close> is a double that holds an integer. The model's \<open>int\<close> agrees with it as long
  as \<^verbatim>\<open>depth + 1\<close>, \<^verbatim>\<open>10 - depth\<close> and \<^verbatim>\<open>depth - 10\<close> stay within \<open>2 ^ 53\<close> in absolute
  value, where doubles are exact; \<^verbatim>\<open>bestMove\<close> passes \<open>0\<close> and every level of the
  recursion adds one, so the program stays below the number of cells. A statement about
  other depths carries this range as a hypothesis.

  \<open>maxLoop\<close> and \<open>minLoop\<close> are the two \<^verbatim>\<open>for (let i = 0; i < board.length; i += 1)\<close>
  loops, entered at index \<open>i\<close> with the running \<^verbatim>\<open>best\<close>.
\<close>

function (sequential) minimax :: "nat \<Rightarrow> board \<Rightarrow> int \<Rightarrow> bool \<Rightarrow> mark \<Rightarrow> mark \<Rightarrow> (jsnum \<times> board) option"
  and maxLoop :: "nat \<Rightarrow> board \<Rightarrow> int \<Rightarrow> mark \<Rightarrow> mark \<Rightarrow> nat \<Rightarrow> jsnum \<Rightarrow> (jsnum \<times> board) option"
  and minLoop :: "nat \<Rightarrow> board \<Rightarrow> int \<Rightarrow> mark \<Rightarrow> mark \<Rightarrow> nat \<Rightarrow> jsnum \<Rightarrow> (jsnum \<times> board) option"
where
  "minimax 0 board depth isMax ai human = None"
| "minimax (Suc fuel) board depth isMax ai human =
     (case winnerInfo board of
        Some w \<Rightarrow>
          if symbol w = ai then Some (Fin (10 - depth), board)
          else Some (Fin (depth - 10), board)
      | None \<Rightarrow>
          if isFull board then Some (Fin 0, board)
          else if isMax then maxLoop fuel board depth ai human 0 NegInf
          else minLoop fuel board depth ai human 0 PosInf)"
| "maxLoop 0 board depth ai human i best = None"
| "maxLoop (Suc fuel) board depth ai human i best =
     (if i < length board then
        (if board ! i = None then
           (case minimax fuel (board[i := Some ai]) (depth + 1) False ai human of
              None \<Rightarrow> None
            | Some (s, board') \<Rightarrow>
                maxLoop fuel (board'[i := None]) depth ai human (i + 1) (max best s))
         else maxLoop fuel board depth ai human (i + 1) best)
      else Some (best, board))"
| "minLoop 0 board depth ai human i best = None"
| "minLoop (Suc fuel) board depth ai human i best =
     (if i < length board then
        (if board ! i = None then
           (case minimax fuel (board[i := Some human]) (depth + 1) True ai human of
              None \<Rightarrow> None
            | Some (s, board') \<Rightarrow>
                minLoop fuel (board'[i := None]) depth ai human (i + 1) (min best s))
         else minLoop fuel board depth ai human (i + 1) best)
      else Some (best, board))"
  by pat_completeness auto

termination
  by (relation "measure (\<lambda>v. case v of Inl (f, _) \<Rightarrow> f | Inr (Inl (f, _)) \<Rightarrow> f
        | Inr (Inr (f, _)) \<Rightarrow> f)") auto

text \<open>
  The loop of \<^verbatim>\<open>bestMove\<close>, entered at index \<open>i\<close> with the running \<^verbatim>\<open>best\<close> and
  \<^verbatim>\<open>moves\<close>. \<^verbatim>\<open>moves.length = 0; moves.push(i)\<close> leaves \<open>[i]\<close>.
\<close>

function (sequential) rootLoop :: "nat \<Rightarrow> board \<Rightarrow> mark \<Rightarrow> mark \<Rightarrow> nat \<Rightarrow> jsnum \<Rightarrow> nat list
    \<Rightarrow> (jsnum \<times> nat list \<times> board) option" where
  "rootLoop 0 board ai human i best moves = None"
| "rootLoop (Suc fuel) board ai human i best moves =
     (if i < length board then
        (if board ! i = None then
           (case minimax fuel (board[i := Some ai]) 0 False ai human of
              None \<Rightarrow> None
            | Some (score, board') \<Rightarrow>
                if best < score then rootLoop fuel (board'[i := None]) ai human (i + 1) score [i]
                else if score = best then
                  rootLoop fuel (board'[i := None]) ai human (i + 1) best (moves @ [i])
                else rootLoop fuel (board'[i := None]) ai human (i + 1) best moves)
         else rootLoop fuel board ai human (i + 1) best moves)
      else Some (best, moves, board))"
  by pat_completeness auto

termination
  by (relation "measure (\<lambda>(f, _). f)") auto

text \<open>
  What \<^verbatim>\<open>bestMove\<close> returns: \<^verbatim>\<open>null\<close>, an index, or \<^verbatim>\<open>undefined\<close> (an array read
  out of range, which needs a random number outside \<open>[0, 1)\<close>).
\<close>

datatype jsmove = MoveNull | MoveUndefined | MoveIndex nat

text \<open>
  \<^verbatim>\<open>moves[Math.floor(Math.random() * moves.length)]\<close>, the value of \<^verbatim>\<open>Math.random()\<close>
  being the parameter \<open>r\<close>.
\<close>

definition pickMove :: "nat list \<Rightarrow> real \<Rightarrow> jsmove" where
  "pickMove moves r =
     (let k = \<lfloor>r * real (length moves)\<rfloor>
      in if 0 \<le> k \<and> k < int (length moves) then MoveIndex (moves ! nat k) else MoveUndefined)"

definition bestMove :: "nat \<Rightarrow> board \<Rightarrow> mark \<Rightarrow> mark \<Rightarrow> real \<Rightarrow> (jsmove \<times> board) option" where
  "bestMove fuel board ai human r =
     (case rootLoop fuel board ai human 0 NegInf [] of
        None \<Rightarrow> None
      | Some (best, moves, board') \<Rightarrow>
          if moves = [] then Some (MoveNull, board') else Some (pickMove moves r, board'))"

text \<open>Fuel that suffices for a search on \<open>board\<close> (shown below).\<close>

definition searchFuel :: "board \<Rightarrow> nat" where
  "searchFuel board = (length board + 2) * (length board + 1)"

section \<open>Round controller\<close>

text \<open>
  The state of the \<^verbatim>\<open>App\<close> component that the game logic reads and writes: the
  \<^verbatim>\<open>useState\<close> cells \<^verbatim>\<open>board\<close>, \<^verbatim>\<open>human\<close>, \<^verbatim>\<open>turn\<close>, \<^verbatim>\<open>result\<close>, \<^verbatim>\<open>winLine\<close>, \<^verbatim>\<open>score\<close> and
  the ref \<^verbatim>\<open>scoredRef\<close>. The fields carry the prefix \<open>st_\<close>. \<^verbatim>\<open>soundOn\<close> and \<^verbatim>\<open>theme\<close>
  only feed the presentation and are left out.
\<close>

datatype outcome = HumanWin | AiWin | Draw

record score =
  wins :: nat
  losses :: nat
  draws :: nat

record app =
  st_board :: board
  st_human :: mark
  st_turn :: mark
  st_result :: "outcome option"
  st_winLine :: "nat list"
  st_score :: score
  st_scoredRef :: "outcome option"

text \<open>The initial values of the \<^verbatim>\<open>useState\<close> and \<^verbatim>\<open>useRef\<close> calls.\<close>

definition initialApp :: app where
  "initialApp = \<lparr>st_board = emptyBoard, st_human = SymX, st_turn = SymX, st_result = None,
     st_winLine = [], st_score = \<lparr>wins = 0, losses = 0, draws = 0\<rparr>, st_scoredRef = None\<rparr>"

text \<open>\<^verbatim>\<open>const ai = useMemo(() => (human === 'X' ? 'O' : 'X'), [human])\<close>\<close>

definition aiOf :: "app \<Rightarrow> mark" where
  "aiOf s = (if st_human s = SymX then SymO else SymX)"

definition restartRound :: "app \<Rightarrow> app" where
  "restartRound s =
     s\<lparr>st_board := emptyBoard, st_turn := SymX, st_result := None, st_winLine := [],
       st_scoredRef := None\<rparr>"

definition chooseSymbol :: "mark \<Rightarrow> app \<Rightarrow> app" where
  "chooseSymbol next s =
     (if next = st_human s then s
      else s\<lparr>st_human := next, st_board := emptyBoard, st_turn := SymX, st_result := None,
             st_winLine := [], st_scoredRef := None\<rparr>)"

text \<open>
  \<^verbatim>\<open>clickCell(idx)\<close>: three guards, then the human's symbol is written into a copy of
  the board and the turn passes to the computer.
\<close>

definition clickCell :: "nat \<Rightarrow> app \<Rightarrow> app" where
  "clickCell idx s =
     (if st_result s \<noteq> None then s
      else if st_turn s \<noteq> st_human s then s
      else if cellAt (st_board s) idx \<noteq> Some None then s
      else s\<lparr>st_board := (st_board s)[idx := Some (st_human s)], st_turn := aiOf s\<rparr>)"

text \<open>
  The computer's move: the effect schedules the timer only while \<^verbatim>\<open>result\<close> is unset
  and \<^verbatim>\<open>turn === ai\<close>, and cancels it when either changes, so the callback runs under
  these two guards. It searches on a copy \<^verbatim>\<open>[...board]\<close>, whose final contents are
  dropped; \<open>r\<close> is the value \<^verbatim>\<open>Math.random()\<close> returns inside \<^verbatim>\<open>bestMove\<close>.
  \<^verbatim>\<open>typeof move !== 'number'\<close> holds for \<^verbatim>\<open>null\<close> and \<^verbatim>\<open>undefined\<close>.
\<close>

definition aiMove :: "real \<Rightarrow> app \<Rightarrow> app" where
  "aiMove r s =
     (if st_result s \<noteq> None then s
      else if st_turn s \<noteq> aiOf s then s
      else
        (case bestMove (searchFuel (st_board s)) (st_board s) (aiOf s) (st_human s) r of
           Some (MoveIndex move, copy) \<Rightarrow>
             s\<lparr>st_board :=
                 (if cellAt (st_board s) move \<noteq> Some None then st_board s
                  else (st_board s)[move := Some (aiOf s)]),
               st_turn := st_human s\<rparr>
         | _ \<Rightarrow> s))"

text \<open>The effect \<^emph>\<open>Derive result whenever board changes\<close>.\<close>

definition deriveResult :: "app \<Rightarrow> app" where
  "deriveResult s =
     (case winnerInfo (st_board s) of
        Some w \<Rightarrow>
          s\<lparr>st_winLine := line w,
            st_result := Some (if symbol w = st_human s then HumanWin else AiWin)\<rparr>
      | None \<Rightarrow>
          if isFull (st_board s) then s\<lparr>st_winLine := [], st_result := Some Draw\<rparr>
          else s\<lparr>st_winLine := [], st_result := None\<rparr>)"

text \<open>The updater passed to \<^verbatim>\<open>setScore\<close>.\<close>

fun addOutcome :: "outcome \<Rightarrow> score \<Rightarrow> score" where
  "addOutcome HumanWin prev = prev\<lparr>wins := wins prev + 1\<rparr>"
| "addOutcome AiWin prev = prev\<lparr>losses := losses prev + 1\<rparr>"
| "addOutcome Draw prev = prev\<lparr>draws := draws prev + 1\<rparr>"

text \<open>The effect \<^emph>\<open>Score + end-of-round tones\<close>, without the tones.\<close>

definition tally :: "app \<Rightarrow> app" where
  "tally s =
     (case st_result s of
        None \<Rightarrow> s
      | Some res \<Rightarrow>
          if st_scoredRef s = Some res then s
          else s\<lparr>st_score := addOutcome res (st_score s), st_scoredRef := Some res\<rparr>)"

text \<open>
  What can happen to the component: a click on cell \<open>idx\<close>, the computer's timer firing
  (with the random number its search will draw), the restart button, one of the two
  symbol buttons, and a render that changes none of the fields above (a sound toggle
  gives \<^verbatim>\<open>beep\<close> a new identity, which re-runs the effects that depend on it).
\<close>

datatype event = Click nat | AiTimer real | Restart | Choose mark | Rerender

fun handler :: "event \<Rightarrow> app \<Rightarrow> app" where
  "handler (Click idx) s = clickCell idx s"
| "handler (AiTimer r) s = aiMove r s"
| "handler Restart s = restartRound s"
| "handler (Choose next) s = chooseSymbol next s"
| "handler Rerender s = s"

text \<open>
  One event, followed by the effects until the state is at rest: the result is derived
  from the new board, and the render which that update causes runs the tally.
\<close>

definition step :: "event \<Rightarrow> app \<Rightarrow> app" where
  "step e s = tally (deriveResult (handler e s))"

fun run :: "app \<Rightarrow> event list \<Rightarrow> app" where
  "run s [] = s"
| "run s (e # es) = run (step e s) es"

inductive reachable :: "app \<Rightarrow> bool" where
  reachable_init: "reachable initialApp"
| reachable_step: "reachable s \<Longrightarrow> reachable (step e s)"

text \<open>The states of the controller's state machine, read off the component state.\<close>

datatype phase = AwaitingHuman | AwaitingComputer | RoundOver outcome

definition phaseOf :: "app \<Rightarrow> phase" where
  "phaseOf s =
     (case st_result s of
        Some res \<Rightarrow> RoundOver res
      | None \<Rightarrow> if st_turn s = st_human s then AwaitingHuman else AwaitingComputer)"

section \<open>Notions used to state and prove the properties\<close>

text \<open>
  A line is uniformly \<open>m\<close> when its three cells exist and all hold the symbol \<open>m\<close>.
\<close>

fun uniformLine :: "board \<Rightarrow> nat \<times> nat \<times> nat \<Rightarrow> mark \<Rightarrow> bool" where
  "uniformLine board (a, b, c) m =
     (cellAt board a = Some (Some m) \<and> cellAt board b = Some (Some m)
      \<and> cellAt board c = Some (Some m))"

fun lineCells :: "nat \<times> nat \<times> nat \<Rightarrow> nat list" where
  "lineCells (a, b, c) = [a, b, c]"

definition hasLine :: "board \<Rightarrow> mark \<Rightarrow> bool" where
  "hasLine board m = list_ex (\<lambda>l. uniformLine board l m) LINES"

text \<open>The indices of the empty cells, in the order in which the loops visit them.\<close>

definition empties :: "board \<Rightarrow> nat list" where
  "empties b = filter (\<lambda>i. b ! i = None) [0..<length b]"

lemma empties_update:
  "empties (b[i := Some m]) = filter (\<lambda>j. j \<noteq> i) (empties b)"
proof -
  have "(b[i := Some m] ! j = None) = (j \<noteq> i \<and> b ! j = None)" if "j < length b" for j
  proof (cases "j = i")
    case True
    with that show ?thesis by simp
  next
    case False
    then show ?thesis by simp
  qed
  then show ?thesis
    unfolding empties_def filter_filter length_list_update
    by (intro filter_cong) auto
qed

lemma empties_update_less:
  "i \<in> set (empties b) \<Longrightarrow> length (empties (b[i := Some m])) < length (empties b)"
  unfolding empties_update by (rule length_filter_less[of i]) auto

text \<open>
  The value \<^verbatim>\<open>minimax\<close> computes, as a function of the position alone: the recursion
  of the source without the array being written and restored. \<open>minimax_enough\<close> below
  shows that the search returns exactly this value once it has enough fuel.
\<close>

function mmValue :: "board \<Rightarrow> int \<Rightarrow> bool \<Rightarrow> mark \<Rightarrow> mark \<Rightarrow> jsnum" where
  "mmValue b d isMax ai human =
     (case winnerInfo b of
        Some w \<Rightarrow> if symbol w = ai then Fin (10 - d) else Fin (d - 10)
      | None \<Rightarrow>
          if isFull b then Fin 0
          else if isMax then
            fold (\<lambda>i best. max best (mmValue (b[i := Some ai]) (d + 1) False ai human))
              (empties b) NegInf
          else
            fold (\<lambda>i best. min best (mmValue (b[i := Some human]) (d + 1) True ai human))
              (empties b) PosInf)"
  by pat_completeness auto

termination
  by (relation "measure (\<lambda>(b, _). length (empties b))") (auto simp: empties_update_less)

text \<open>
  Whether the side \<open>ai\<close> can avoid defeat from a position: it has won, or the board is a
  draw, or (its turn) some move keeps this true, or (the opponent's turn) every move does.
\<close>

function nonlosing :: "board \<Rightarrow> bool \<Rightarrow> mark \<Rightarrow> mark \<Rightarrow> bool" where
  "nonlosing b isMax ai human =
     (case winnerInfo b of
        Some w \<Rightarrow> symbol w = ai
      | None \<Rightarrow>
          if isFull b then True
          else if isMax then list_ex (\<lambda>i. nonlosing (b[i := Some ai]) False ai human) (empties b)
          else list_all (\<lambda>i. nonlosing (b[i := Some human]) True ai human) (empties b))"
  by pat_completeness auto

termination
  by (relation "measure (\<lambda>(b, _). length (empties b))") (auto simp: empties_update_less)

text \<open>Fuel that suffices for one call of \<^verbatim>\<open>minimax\<close> on \<open>b\<close>.\<close>

definition fuelFor :: "board \<Rightarrow> nat" where
  "fuelFor b = (length b + 2) * length (empties b) + 1"

text \<open>
  The score \<^verbatim>\<open>bestMove\<close> computes for the candidate cell \<open>i\<close>:
  \<^verbatim>\<open>board[i] = ai; const score = minimax(board, 0, false, ai, human)\<close>.
\<close>

definition candidateScore :: "nat \<Rightarrow> board \<Rightarrow> mark \<Rightarrow> mark \<Rightarrow> nat \<Rightarrow> jsnum option" where
  "candidateScore fuel board ai human i =
     map_option fst (minimax fuel (board[i := Some ai]) 0 False ai human)"

definition scoreOf :: "board \<Rightarrow> mark \<Rightarrow> mark \<Rightarrow> nat \<Rightarrow> jsnum" where
  "scoreOf b ai human j = mmValue (b[j := Some ai]) 0 False ai human"

text \<open>One iteration of the selection in \<^verbatim>\<open>bestMove\<close>, on the pair \<^verbatim>\<open>(best, moves)\<close>.\<close>

fun selectStep :: "(nat \<Rightarrow> jsnum) \<Rightarrow> nat \<Rightarrow> jsnum \<times> nat list \<Rightarrow> jsnum \<times> nat list" where
  "selectStep S j (best, moves) =
     (if best < S j then (S j, [j])
      else if S j = best then (best, moves @ [j])
      else (best, moves))"

definition bestMoves :: "board \<Rightarrow> mark \<Rightarrow> mark \<Rightarrow> nat list" where
  "bestMoves b ai human = snd (fold (selectStep (scoreOf b ai human)) (empties b) (NegInf, []))"

text \<open>
  Cell \<open>i\<close> is a best candidate: it is empty, its score is computed, and no empty cell
  scores higher.
\<close>

definition maximalCandidate :: "nat \<Rightarrow> board \<Rightarrow> mark \<Rightarrow> mark \<Rightarrow> nat \<Rightarrow> bool" where
  "maximalCandidate fuel board ai human i =
     (i < length board \<and> board ! i = None \<and>
      (case candidateScore fuel board ai human i of
         None \<Rightarrow> False
       | Some s \<Rightarrow>
           list_all (\<lambda>j. case candidateScore fuel board ai human j of
                            None \<Rightarrow> False | Some t \<Rightarrow> t \<le> s) (empties board)))"

text \<open>
  What the effect \<open>deriveResult\<close> writes into \<open>st_result\<close> and \<open>st_winLine\<close>, as
  functions of the board and the human's symbol.
\<close>

definition outcomeOf :: "board \<Rightarrow> mark \<Rightarrow> outcome option" where
  "outcomeOf b human =
     (case winnerInfo b of
        Some w \<Rightarrow> Some (if symbol w = human then HumanWin else AiWin)
      | None \<Rightarrow> if isFull b then Some Draw else None)"

definition winLineOf :: "board \<Rightarrow> nat list" where
  "winLineOf b = (case winnerInfo b of Some w \<Rightarrow> line w | None \<Rightarrow> [])"

text \<open>
  The effects are at rest in \<open>s\<close>: result and winning line are the ones derived from
  the board, and the round's result, if any, has been tallied.
\<close>

definition settled :: "app \<Rightarrow> bool" where
  "settled s =
     (st_winLine s = winLineOf (st_board s)
      \<and> st_result s = outcomeOf (st_board s) (st_human s)
      \<and> st_scoredRef s = st_result s)"

text \<open>
  A strategy for the computer, as a tree: \<open>St i ts\<close> plays cell \<open>i\<close> and continues with
  \<open>ts ! k\<close> after the opponent's answer in the \<open>k\<close>-th empty cell. \<open>safeMax\<close> checks that
  the computer, to move on \<open>b\<close>, never loses when it follows the tree.
\<close>

datatype strat = St nat "strat list"

primrec safeMax :: "strat \<Rightarrow> mark \<Rightarrow> mark \<Rightarrow> board \<Rightarrow> bool" where
  "safeMax (St i ts) ai human b =
     (case winnerInfo b of
        Some w \<Rightarrow> symbol w = ai
      | None \<Rightarrow>
          isFull b \<or>
          (i < length b \<and> b ! i = None \<and>
           (case winnerInfo (b[i := Some ai]) of
              Some w \<Rightarrow> symbol w = ai
            | None \<Rightarrow>
                isFull (b[i := Some ai]) \<or>
                list_all2 (\<lambda>j chk. chk (b[i := Some ai, j := Some human]))
                  (empties (b[i := Some ai])) (map (\<lambda>t. safeMax t ai human) ts))))"

text \<open>
  One such tree for each opening move of the human, the computer holding \<open>SymO\<close>.
\<close>

definition secondPlayerStrategy :: "strat list" where
  "secondPlayerStrategy =
     [St 4 [St 2 [St 6 [], St 6 [], St 3 [St 7 [St 0 []], St 5 [], St 5 []], St 6 [], St 6 []],
     St 1 [St 7 [], St 7 [], St 7 [], St 3 [St 8 [St 0 []], St 5 [], St 5 []], St 7 []], St 6 [St
     2 [], St 1 [St 7 [], St 5 [St 0 []], St 7 []], St 2 [], St 2 [], St 2 []], St 1 [St 7 [], St
     7 [], St 7 [], St 6 [St 8 [St 0 []], St 2 [], St 2 []], St 7 []], St 3 [St 5 [], St 5 [], St
     1 [St 7 [], St 8 [St 0 []], St 7 []], St 5 [], St 5 []], St 3 [St 5 [], St 5 [], St 2 [St 6
     [], St 8 [St 0 []], St 6 []], St 5 [], St 5 []], St 1 [St 7 [], St 7 [], St 7 [], St 7 [],
     St 6 [St 5 [St 0 []], St 2 [], St 2 []]]],
     St 4 [St 2 [St 6 [], St 6 [], St 3 [St 7 [St 0 []], St 5 [], St 5 []], St 6 [], St 6 []], St
     0 [St 8 [], St 8 [], St 8 [], St 8 [], St 5 [St 6 [St 0 []], St 3 [], St 3 []]], St 0 [St 8
     [], St 8 [], St 8 [], St 8 [], St 2 [St 6 [], St 7 [St 0 []], St 6 []]], St 0 [St 8 [], St 8
     [], St 8 [], St 8 [], St 2 [St 6 [], St 7 [St 0 []], St 6 []]], St 3 [St 5 [], St 5 [], St 8
     [St 2 [St 0 []], St 0 [], St 0 []], St 5 [], St 5 []], St 0 [St 8 [], St 8 [], St 8 [], St 8
     [], St 6 [St 3 [], St 2 [], St 2 []]], St 3 [St 5 [], St 5 [], St 2 [St 6 [], St 7 [St 0
     []], St 6 []], St 5 [], St 5 []]],
     St 4 [St 1 [St 7 [], St 7 [], St 7 [], St 3 [St 8 [St 0 []], St 5 [], St 5 []], St 7 []], St
     0 [St 8 [], St 8 [], St 8 [], St 8 [], St 5 [St 6 [St 0 []], St 3 [], St 3 []]], St 1 [St 7
     [], St 7 [], St 7 [], St 8 [St 6 [St 0 []], St 0 [], St 0 []], St 7 []], St 8 [St 1 [St 7
     [], St 7 [], St 3 [St 0 []]], St 0 [], St 0 [], St 0 [], St 0 []], St 1 [St 7 [], St 7 [],
     St 7 [], St 8 [St 3 [St 0 []], St 0 [], St 0 []], St 7 []], St 3 [St 5 [], St 5 [], St 8 [St
     1 [St 0 []], St 0 [], St 0 []], St 5 [], St 5 []], St 5 [St 3 [], St 3 [], St 1 [St 7 [], St
     7 [], St 6 [St 0 []]], St 3 [], St 3 []]],
     St 4 [St 6 [St 2 [], St 1 [St 7 [], St 5 [St 0 []], St 7 []], St 2 [], St 2 [], St 2 []], St
     0 [St 8 [], St 8 [], St 8 [], St 8 [], St 2 [St 6 [], St 7 [St 0 []], St 6 []]], St 1 [St 7
     [], St 7 [], St 7 [], St 8 [St 6 [St 0 []], St 0 [], St 0 []], St 7 []], St 0 [St 8 [], St 8
     [], St 8 [], St 8 [], St 2 [St 6 [], St 1 [], St 1 []]], St 0 [St 8 [], St 8 [], St 8 [], St
     8 [], St 7 [St 2 [St 0 []], St 1 [], St 1 []]], St 0 [St 8 [], St 8 [], St 8 [], St 8 [], St
     6 [St 2 [], St 5 [St 0 []], St 2 []]], St 1 [St 7 [], St 7 [], St 7 [], St 7 [], St 6 [St 2
     [], St 5 [St 0 []], St 2 []]]],
     St 0 [St 7 [St 6 [St 8 [], St 3 [], St 3 []], St 5 [St 6 [St 0 []], St 2 [St 0 []], St 2 [St
     0 []]], St 3 [St 6 [], St 2 [St 0 []], St 6 []], St 2 [St 5 [St 0 []], St 3 [St 0 []], St 3
     [St 0 []]], St 3 [St 6 [], St 6 [], St 2 [St 0 []]]], St 6 [St 3 [], St 5 [St 7 [St 0 []],
     St 1 [St 0 []], St 1 [St 0 []]], St 3 [], St 3 [], St 3 []], St 5 [St 7 [St 6 [St 0 []], St
     2 [St 0 []], St 2 [St 0 []]], St 6 [St 7 [St 0 []], St 1 [St 0 []], St 1 [St 0 []]], St 2
     [St 8 [], St 1 [], St 1 []], St 1 [St 6 [St 0 []], St 2 [], St 2 []], St 1 [St 6 [St 0 []],
     St 2 [], St 2 []]], St 3 [St 6 [], St 6 [], St 2 [St 7 [St 0 []], St 1 [], St 1 []], St 6
     [], St 6 []], St 2 [St 7 [St 5 [St 0 []], St 3 [St 0 []], St 3 [St 0 []]], St 1 [], St 1 [],
     St 1 [], St 1 []], St 1 [St 6 [St 5 [St 0 []], St 3 [], St 3 []], St 2 [], St 2 [], St 2 [],
     St 2 []], St 2 [St 7 [St 5 [St 0 []], St 3 [St 0 []], St 3 [St 0 []]], St 1 [], St 1 [], St
     1 [], St 1 []]],
     St 4 [St 1 [St 7 [], St 7 [], St 7 [], St 6 [St 8 [St 0 []], St 2 [], St 2 []], St 7 []], St
     0 [St 8 [], St 8 [], St 8 [], St 8 [], St 2 [St 6 [], St 7 [St 0 []], St 6 []]], St 8 [St 1
     [St 7 [], St 7 [], St 3 [St 0 []]], St 0 [], St 0 [], St 0 [], St 0 []], St 0 [St 8 [], St 8
     [], St 8 [], St 8 [], St 2 [St 6 [], St 1 [], St 1 []]], St 1 [St 7 [], St 7 [], St 7 [], St
     8 [St 3 [St 0 []], St 0 [], St 0 []], St 7 []], St 2 [St 6 [], St 6 [], St 6 [], St 8 [St 3
     [St 0 []], St 0 [], St 0 []], St 6 []], St 2 [St 6 [], St 6 [], St 6 [], St 7 [St 1 [], St 0
     [St 0 []], St 1 []], St 6 []]],
     St 4 [St 3 [St 5 [], St 5 [], St 1 [St 7 [], St 8 [St 0 []], St 7 []], St 5 [], St 5 []], St
     3 [St 5 [], St 5 [], St 8 [St 2 [St 0 []], St 0 [], St 0 []], St 5 [], St 5 []], St 1 [St 7
     [], St 7 [], St 7 [], St 8 [St 3 [St 0 []], St 0 [], St 0 []], St 7 []], St 0 [St 8 [], St 8
     [], St 8 [], St 8 [], St 7 [St 2 [St 0 []], St 1 [], St 1 []]], St 1 [St 7 [], St 7 [], St 7
     [], St 8 [St 3 [St 0 []], St 0 [], St 0 []], St 7 []], St 8 [St 3 [St 5 [], St 5 [], St 1
     [St 0 []]], St 0 [], St 0 [], St 0 [], St 0 []], St 7 [St 1 [], St 3 [St 5 [], St 5 [], St 2
     [St 0 []]], St 1 [], St 1 [], St 1 []]],
     St 4 [St 3 [St 5 [], St 5 [], St 2 [St 6 [], St 8 [St 0 []], St 6 []], St 5 [], St 5 []], St
     0 [St 8 [], St 8 [], St 8 [], St 8 [], St 6 [St 3 [], St 2 [], St 2 []]], St 3 [St 5 [], St
     5 [], St 8 [St 1 [St 0 []], St 0 [], St 0 []], St 5 [], St 5 []], St 0 [St 8 [], St 8 [], St
     8 [], St 8 [], St 6 [St 2 [], St 5 [St 0 []], St 2 []]], St 2 [St 6 [], St 6 [], St 6 [], St
     8 [St 3 [St 0 []], St 0 [], St 0 []], St 6 []], St 8 [St 3 [St 5 [], St 5 [], St 1 [St 0
     []]], St 0 [], St 0 [], St 0 [], St 0 []], St 6 [St 2 [], St 2 [], St 5 [St 3 [], St 3 [],
     St 0 [St 0 []]], St 2 [], St 2 []]],
     St 4 [St 1 [St 7 [], St 7 [], St 7 [], St 7 [], St 6 [St 5 [St 0 []], St 2 [], St 2 []]], St
     3 [St 5 [], St 5 [], St 2 [St 6 [], St 7 [St 0 []], St 6 []], St 5 [], St 5 []], St 5 [St 3
     [], St 3 [], St 1 [St 7 [], St 7 [], St 6 [St 0 []]], St 3 [], St 3 []], St 1 [St 7 [], St 7
     [], St 7 [], St 7 [], St 6 [St 2 [], St 5 [St 0 []], St 2 []]], St 2 [St 6 [], St 6 [], St 6
     [], St 7 [St 1 [], St 0 [St 0 []], St 1 []], St 6 []], St 7 [St 1 [], St 3 [St 5 [], St 5
     [], St 2 [St 0 []]], St 1 [], St 1 [], St 1 []], St 6 [St 2 [], St 2 [], St 5 [St 3 [], St 3
     [], St 0 [St 0 []]], St 2 [], St 2 []]]]"

definition strategyChecks :: bool where
  "strategyChecks =
     list_all2 (\<lambda>j t. safeMax t SymO SymX (emptyBoard[j := Some SymX]))
       (empties emptyBoard) secondPlayerStrategy"

text \<open>
  The invariant of a round in which the human holds \<open>SymX\<close>: the computer can still
  avoid defeat from the board, whoever is to move.
\<close>

definition safeState :: "app \<Rightarrow> bool" where
  "safeState s =
     (st_human s = SymX \<and> length (st_board s) = 9
      \<and> st_result s = outcomeOf (st_board s) SymX
      \<and> nonlosing (st_board s) (st_turn s = SymO) SymO SymX)"

text \<open>
  A state one move before the end of a drawn round.
\<close>

definition lateGame :: app where
  "lateGame = \<lparr>st_board = [Some SymX, Some SymO, Some SymX, Some SymX, Some SymO, Some SymO,
       Some SymO, Some SymX, None],
     st_human = SymX, st_turn = SymX, st_result = None, st_winLine = [],
     st_score = \<lparr>wins = 0, losses = 2, draws = 1\<rparr>, st_scoredRef = None\<rparr>"




text \<open>
  A state in which the human completes a line with the next click, and one in which the
  computer completes a line with its next move.
\<close>

definition lateWin :: app where
  "lateWin = \<lparr>st_board = [Some SymX, Some SymX, None, Some SymO, Some SymO, None, None, None, None],
     st_human = SymX, st_turn = SymX, st_result = None, st_winLine = [],
     st_score = \<lparr>wins = 4, losses = 2, draws = 1\<rparr>, st_scoredRef = None\<rparr>"

definition lateLoss :: app where
  "lateLoss = \<lparr>st_board = [Some SymO, Some SymO, None, Some SymX, Some SymX, None, Some SymX, None, None],
     st_human = SymX, st_turn = SymO, st_result = None, st_winLine = [],
     st_score = \<lparr>wins = 4, losses = 2, draws = 1\<rparr>, st_scoredRef = None\<rparr>"

section \<open>Lemmas\<close>

subsection \<open>Win detection\<close>

lemma lineTest_uniform: "(lineTest board l = Some m) = uniformLine board l m"
  by (cases l) (auto simp: lineTest_def split: option.splits)

lemma lineTest_None: "(lineTest board l = None) = (\<forall>m. \<not> uniformLine board l m)"
  by (metis lineTest_uniform not_None_eq)

lemma scanLines_None: "(scanLines board ls = None) = (\<forall>l \<in> set ls. lineTest board l = None)"
  by (induction ls) (auto split: option.splits)

lemma scanLines_Some:
  "scanLines board ls = Some w \<Longrightarrow>
     \<exists>k < length ls. lineTest board (ls ! k) = Some (symbol w) \<and> line w = lineCells (ls ! k)
        \<and> (\<forall>j < k. lineTest board (ls ! j) = None)"
proof (induction ls)
  case Nil
  then show ?case by simp
next
  case (Cons l ls)
  obtain a b c where l: "l = (a, b, c)" by (cases l) auto
  show ?case
  proof (cases "lineTest board l")
    case None
    with Cons.prems l have "scanLines board ls = Some w" by simp
    from Cons.IH[OF this] obtain k where k: "k < length ls"
      "lineTest board (ls ! k) = Some (symbol w)" "line w = lineCells (ls ! k)"
      "\<forall>j < k. lineTest board (ls ! j) = None" by blast
    have "\<forall>j < Suc k. lineTest board ((l # ls) ! j) = None"
      using None k(4) by (auto simp: nth_Cons split: nat.splits)
    with k show ?thesis by (intro exI[of _ "Suc k"]) simp
  next
    case (Some m)
    with Cons.prems l have "w = \<lparr>symbol = m, line = [a, b, c]\<rparr>" by simp
    with Some l show ?thesis by (intro exI[of _ 0]) simp
  qed
qed


subsection \<open>The search returns, restores the board and computes the minimax value\<close>

lemma restore_cell: "b ! i = None \<Longrightarrow> b[i := None] = b"
  by (metis list_update_id)

lemma maxLoop_run:
  assumes rec: "\<And>j f. j \<in> set (empties b) \<Longrightarrow> K \<le> f \<Longrightarrow>
      minimax f (b[j := Some ai]) (d + 1) False ai human = Some (V j, b[j := Some ai])"
  shows "i \<le> length b \<Longrightarrow> (length b - i) + 1 + K \<le> f \<Longrightarrow>
     maxLoop f b d ai human i best =
       Some (fold (\<lambda>j acc. max acc (V j)) (filter (\<lambda>j. b ! j = None) [i..<length b]) best, b)"
proof (induction "length b - i" arbitrary: i f best)
  case 0
  then obtain f' where f: "f = Suc f'" by (cases f) auto
  from 0 have "i = length b" by simp
  then show ?case by (simp add: f)
next
  case (Suc k)
  then have lt: "i < length b" by simp
  from Suc.prems obtain f' where f: "f = Suc f'" by (cases f) auto
  have f': "(length b - Suc i) + 1 + K \<le> f'" "K \<le> f'" using Suc.prems Suc.hyps(2) f by simp_all
  have k: "k = length b - Suc i" using Suc.hyps(2) by simp
  have upt: "[i..<length b] = i # [Suc i..<length b]" using lt by (simp add: upt_conv_Cons)
  show ?case
  proof (cases "b ! i = None")
    case True
    then have mem: "i \<in> set (empties b)" using lt by (simp add: empties_def)
    have next_it: "maxLoop f' b d ai human (Suc i) (max best (V i)) =
        Some (fold (\<lambda>j acc. max acc (V j)) (filter (\<lambda>j. b ! j = None) [Suc i..<length b])
          (max best (V i)), b)"
      using Suc.hyps(1)[OF k _ f'(1)] lt by simp
    show ?thesis
      using True lt by (simp add: f upt rec[OF mem f'(2)] restore_cell next_it)
  next
    case False
    have next_it: "maxLoop f' b d ai human (Suc i) best =
        Some (fold (\<lambda>j acc. max acc (V j)) (filter (\<lambda>j. b ! j = None) [Suc i..<length b]) best, b)"
      using Suc.hyps(1)[OF k _ f'(1)] lt by simp
    from False have ne: "(b ! i = None) = False" by simp
    show ?thesis
      using lt by (simp add: f upt next_it ne)
  qed
qed


lemma minLoop_run:
  assumes rec: "\<And>j f. j \<in> set (empties b) \<Longrightarrow> K \<le> f \<Longrightarrow>
      minimax f (b[j := Some human]) (d + 1) True ai human = Some (V j, b[j := Some human])"
  shows "i \<le> length b \<Longrightarrow> (length b - i) + 1 + K \<le> f \<Longrightarrow>
     minLoop f b d ai human i best =
       Some (fold (\<lambda>j acc. min acc (V j)) (filter (\<lambda>j. b ! j = None) [i..<length b]) best, b)"
proof (induction "length b - i" arbitrary: i f best)
  case 0
  then obtain f' where f: "f = Suc f'" by (cases f) auto
  from 0 have "i = length b" by simp
  then show ?case by (simp add: f)
next
  case (Suc k)
  then have lt: "i < length b" by simp
  from Suc.prems obtain f' where f: "f = Suc f'" by (cases f) auto
  have f': "(length b - Suc i) + 1 + K \<le> f'" "K \<le> f'" using Suc.prems Suc.hyps(2) f by simp_all
  have k: "k = length b - Suc i" using Suc.hyps(2) by simp
  have upt: "[i..<length b] = i # [Suc i..<length b]" using lt by (simp add: upt_conv_Cons)
  show ?case
  proof (cases "b ! i = None")
    case True
    then have mem: "i \<in> set (empties b)" using lt by (simp add: empties_def)
    have next_it: "minLoop f' b d ai human (Suc i) (min best (V i)) =
        Some (fold (\<lambda>j acc. min acc (V j)) (filter (\<lambda>j. b ! j = None) [Suc i..<length b])
          (min best (V i)), b)"
      using Suc.hyps(1)[OF k _ f'(1)] lt by simp
    show ?thesis
      using True lt by (simp add: f upt rec[OF mem f'(2)] restore_cell next_it)
  next
    case False
    have next_it: "minLoop f' b d ai human (Suc i) best =
        Some (fold (\<lambda>j acc. min acc (V j)) (filter (\<lambda>j. b ! j = None) [Suc i..<length b]) best, b)"
      using Suc.hyps(1)[OF k _ f'(1)] lt by simp
    from False have ne: "(b ! i = None) = False" by simp
    show ?thesis
      using lt by (simp add: f upt next_it ne)
  qed
qed

lemma not_full_empties: "\<not> isFull b \<Longrightarrow> empties b \<noteq> []"
  by (auto simp: isFull_def empties_def list_all_iff filter_empty_conv in_set_conv_nth)

lemma fuelFor_child:
  assumes "j \<in> set (empties b)"
  shows "fuelFor (b[j := Some m]) + length b + 1 \<le> fuelFor b - 1"
proof -
  from empties_update_less[OF assms, of m]
  obtain e where e: "length (empties b) = Suc e" "length (empties (b[j := Some m])) \<le> e"
    by (cases "length (empties b)") auto
  have le: "(length b + 2) * length (empties (b[j := Some m])) \<le> (length b + 2) * e"
    using e(2) by (rule mult_le_mono2)
  have split: "(length b + 2) * Suc e = (length b + 2) * e + (length b + 2)"
    by simp
  show ?thesis unfolding fuelFor_def e(1) split length_list_update using le by linarith
qed

lemma minimax_enough:
  "fuelFor b \<le> f \<Longrightarrow> minimax f b d isMax ai human = Some (mmValue b d isMax ai human, b)"
proof (induction b d isMax ai human arbitrary: f rule: mmValue.induct)
  case (1 b d isMax ai human)
  from "1.prems" obtain f' where f: "f = Suc f'" by (cases f) (auto simp: fuelFor_def)
  show ?case
  proof (cases "winnerInfo b")
    case (Some w)
    then show ?thesis by (simp add: f)
  next
    case None
    show ?thesis
    proof (cases "isFull b")
      case True
      with None show ?thesis by (simp add: f)
    next
      case False
      define K where "K = fuelFor b - 1 - length b - 1"
      have K: "\<And>j m. j \<in> set (empties b) \<Longrightarrow> fuelFor (b[j := Some m]) \<le> K"
      proof -
        fix j m assume "j \<in> set (empties b)"
        from fuelFor_child[OF this, of m] show "fuelFor (b[j := Some m]) \<le> K"
          unfolding K_def by linarith
      qed
      have ne: "empties b \<noteq> []" using False by (rule not_full_empties)
      then obtain j0 where "j0 \<in> set (empties b)" by (cases "empties b") auto
      from fuelFor_child[OF this, of ai] have big: "length b + 1 + 1 \<le> fuelFor b - 1"
        by (simp add: fuelFor_def)
      have f': "(length b - 0) + 1 + K \<le> f'"
        using "1.prems" f big unfolding K_def by simp
      show ?thesis
      proof (cases isMax)
        case True
        have rec: "\<And>j g. j \<in> set (empties b) \<Longrightarrow> K \<le> g \<Longrightarrow>
            minimax g (b[j := Some ai]) (d + 1) False ai human
              = Some (mmValue (b[j := Some ai]) (d + 1) False ai human, b[j := Some ai])"
        proof -
          fix j g assume j: "j \<in> set (empties b)" and g: "K \<le> g"
          from K[OF j, of ai] g have "fuelFor (b[j := Some ai]) \<le> g" by linarith
          then show "minimax g (b[j := Some ai]) (d + 1) False ai human
              = Some (mmValue (b[j := Some ai]) (d + 1) False ai human, b[j := Some ai])"
            by (rule "1.IH"(1)[OF None False True j])
        qed
        have "maxLoop f' b d ai human 0 NegInf =
            Some (fold (\<lambda>j acc. max acc (mmValue (b[j := Some ai]) (d + 1) False ai human))
              (filter (\<lambda>j. b ! j = None) [0..<length b]) NegInf, b)"
          by (rule maxLoop_run[OF rec _ f']) simp_all
        with None False True show ?thesis
          by (subst mmValue.simps) (simp add: f empties_def)
      next
        case isMin: False
        have rec: "\<And>j g. j \<in> set (empties b) \<Longrightarrow> K \<le> g \<Longrightarrow>
            minimax g (b[j := Some human]) (d + 1) True ai human
              = Some (mmValue (b[j := Some human]) (d + 1) True ai human, b[j := Some human])"
        proof -
          fix j g assume j: "j \<in> set (empties b)" and g: "K \<le> g"
          from K[OF j, of human] g have "fuelFor (b[j := Some human]) \<le> g" by linarith
          then show "minimax g (b[j := Some human]) (d + 1) True ai human
              = Some (mmValue (b[j := Some human]) (d + 1) True ai human, b[j := Some human])"
            by (rule "1.IH"(2)[OF None False isMin j])
        qed
        have "minLoop f' b d ai human 0 PosInf =
            Some (fold (\<lambda>j acc. min acc (mmValue (b[j := Some human]) (d + 1) True ai human))
              (filter (\<lambda>j. b ! j = None) [0..<length b]) PosInf, b)"
          by (rule minLoop_run[OF rec _ f']) simp_all
        with None False isMin show ?thesis
          by (subst mmValue.simps) (simp add: f empties_def)
      qed
    qed
  qed
qed


subsection \<open>Move selection\<close>

lemma rootLoop_run:
  assumes rec: "\<And>j f. j \<in> set (empties b) \<Longrightarrow> K \<le> f \<Longrightarrow>
      minimax f (b[j := Some ai]) 0 False ai human = Some (S j, b[j := Some ai])"
  shows "i \<le> length b \<Longrightarrow> (length b - i) + 1 + K \<le> f \<Longrightarrow>
     rootLoop f b ai human i best moves =
       (case fold (selectStep S) (filter (\<lambda>j. b ! j = None) [i..<length b]) (best, moves) of
          (best', moves') \<Rightarrow> Some (best', moves', b))"
proof (induction "length b - i" arbitrary: i f best moves)
  case 0
  then obtain f' where f: "f = Suc f'" by (cases f) auto
  from 0 have "i = length b" by simp
  then show ?case by (simp add: f)
next
  case (Suc k)
  then have lt: "i < length b" by simp
  from Suc.prems obtain f' where f: "f = Suc f'" by (cases f) auto
  have f': "(length b - Suc i) + 1 + K \<le> f'" "K \<le> f'" using Suc.prems Suc.hyps(2) f by simp_all
  have k: "k = length b - Suc i" using Suc.hyps(2) by simp
  have upt: "[i..<length b] = i # [Suc i..<length b]" using lt by (simp add: upt_conv_Cons)
  have next_it: "rootLoop f' b ai human (Suc i) best' moves' =
      (case fold (selectStep S) (filter (\<lambda>j. b ! j = None) [Suc i..<length b]) (best', moves') of
          (best'', moves'') \<Rightarrow> Some (best'', moves'', b))" for best' moves'
    using Suc.hyps(1)[OF k _ f'(1)] lt by simp
  show ?case
  proof (cases "b ! i = None")
    case True
    then have mem: "i \<in> set (empties b)" using lt by (simp add: empties_def)
    show ?thesis
      using True lt by (simp add: f upt rec[OF mem f'(2)] restore_cell next_it)
  next
    case False
    from False have ne: "(b ! i = None) = False" by simp
    show ?thesis
      using lt by (simp add: f upt next_it ne)
  qed
qed

lemma select_fold:
  assumes "fold (selectStep S) xs (best0, moves0) = (best, moves)"
    and "moves0 = filter (\<lambda>j. S j = best0) ys"
    and "\<forall>y \<in> set ys. S y \<le> best0"
  shows "moves = filter (\<lambda>j. S j = best) (ys @ xs) \<and> (\<forall>y \<in> set (ys @ xs). S y \<le> best)
     \<and> (best = best0 \<or> best \<in> S ` set xs)"
  using assms
proof (induction xs arbitrary: best0 moves0 ys)
  case Nil
  then show ?case by auto
next
  case (Cons x xs)
  let ?st = "selectStep S x (best0, moves0)"
  obtain b1 m1 where st: "?st = (b1, m1)" by (cases ?st) auto
  have inv1: "m1 = filter (\<lambda>j. S j = b1) (ys @ [x])"
  proof (cases "best0 < S x")
    case True
    then have "\<forall>y \<in> set ys. S y \<noteq> S x" using Cons.prems(3) by auto
    then have "filter (\<lambda>j. S j = S x) ys = []" by (simp add: filter_empty_conv)
    moreover from True st have "b1 = S x" "m1 = [x]" by simp_all
    ultimately show ?thesis by simp
  next
    case False
    with st Cons.prems(2) show ?thesis by (auto split: if_splits)
  qed
  have inv2: "\<forall>y \<in> set (ys @ [x]). S y \<le> b1"
    using st Cons.prems(3) by (auto split: if_splits)
  have b1: "b1 = best0 \<or> b1 = S x" using st by (auto split: if_splits)
  from Cons.prems(1) st have "fold (selectStep S) xs (b1, m1) = (best, moves)" by simp
  from Cons.IH[OF this inv1 inv2] b1 show ?case by auto
qed


lemma select_result:
  assumes "fold (selectStep S) xs (NegInf, []) = (best, moves)"
  shows "moves = filter (\<lambda>j. S j = best) xs" "\<forall>y \<in> set xs. S y \<le> best"
    "xs \<noteq> [] \<Longrightarrow> moves \<noteq> []"
proof -
  from select_fold[OF assms, of "[]"]
  have a: "moves = filter (\<lambda>j. S j = best) xs" and b: "\<forall>y \<in> set xs. S y \<le> best"
    and c: "best = NegInf \<or> best \<in> S ` set xs" by simp_all
  show "moves = filter (\<lambda>j. S j = best) xs" by (rule a)
  show "\<forall>y \<in> set xs. S y \<le> best" by (rule b)
  show "moves \<noteq> []" if ne: "xs \<noteq> []"
  proof -
    have "\<exists>x \<in> set xs. S x = best"
    proof (cases "best \<in> S ` set xs")
      case True
      then show ?thesis by auto
    next
      case False
      with c have "best = NegInf" by simp
      moreover from ne obtain x where x: "x \<in> set xs" by (cases xs) auto
      moreover have "S x \<le> best" using b x by simp
      ultimately have "S x = best" by (cases "S x") simp_all
      with x show ?thesis by auto
    qed
    then show ?thesis unfolding a by (auto simp: filter_empty_conv)
  qed
qed

lemma searchFuel_child:
  "fuelFor (b[j := Some m]) \<le> searchFuel b - length b - 1"
proof -
  have "length (empties (b[j := Some m])) \<le> length b"
    unfolding empties_def by (metis diff_zero length_filter_le length_list_update length_upt)
  then have "(length b + 2) * length (empties (b[j := Some m])) \<le> (length b + 2) * length b"
    by (rule mult_le_mono2)
  moreover have "(length b + 2) * (length b + 1) = (length b + 2) * length b + (length b + 2)"
    by simp
  ultimately show ?thesis unfolding fuelFor_def searchFuel_def length_list_update by linarith
qed

lemma searchFuel_self: "fuelFor b \<le> searchFuel b"
proof -
  have "length (empties b) \<le> length b"
    unfolding empties_def by (metis diff_zero length_filter_le length_upt)
  then have "(length b + 2) * length (empties b) \<le> (length b + 2) * length b"
    by (rule mult_le_mono2)
  moreover have "(length b + 2) * (length b + 1) = (length b + 2) * length b + (length b + 2)"
    by simp
  ultimately show ?thesis unfolding fuelFor_def searchFuel_def by linarith
qed

lemma candidateScore_enough:
  "searchFuel b \<le> f \<Longrightarrow> candidateScore f b ai human j = Some (scoreOf b ai human j)"
proof -
  assume "searchFuel b \<le> f"
  with searchFuel_child[of b j ai] have "fuelFor (b[j := Some ai]) \<le> f" by linarith
  from minimax_enough[OF this] show ?thesis by (simp add: candidateScore_def scoreOf_def)
qed

lemma rootLoop_enough:
  assumes "searchFuel b \<le> f"
  shows "rootLoop f b ai human 0 NegInf [] =
       (case fold (selectStep (scoreOf b ai human)) (empties b) (NegInf, []) of
          (best', moves') \<Rightarrow> Some (best', moves', b))"
proof -
  define K where "K = searchFuel b - length b - 1"
  have rec: "\<And>j g. j \<in> set (empties b) \<Longrightarrow> K \<le> g \<Longrightarrow>
      minimax g (b[j := Some ai]) 0 False ai human = Some (scoreOf b ai human j, b[j := Some ai])"
  proof -
    fix j g assume "K \<le> g"
    with searchFuel_child[of b j ai] have "fuelFor (b[j := Some ai]) \<le> g"
      unfolding K_def by linarith
    from minimax_enough[OF this] show "minimax g (b[j := Some ai]) 0 False ai human
        = Some (scoreOf b ai human j, b[j := Some ai])"
      by (simp add: scoreOf_def)
  qed
  have "length b + 2 \<le> searchFuel b" by (simp add: searchFuel_def)
  then have f: "(length b - 0) + 1 + K \<le> f" using assms unfolding K_def by linarith
  show ?thesis
    using rootLoop_run[OF rec _ f] by (simp add: empties_def)
qed

lemma bestMove_enough:
  assumes "searchFuel b \<le> f"
  shows "bestMove f b ai human r =
     Some (if bestMoves b ai human = [] then MoveNull else pickMove (bestMoves b ai human) r, b)"
  unfolding bestMove_def rootLoop_enough[OF assms] bestMoves_def
  by (simp split: prod.splits)

lemma bestMoves_set:
  "set (bestMoves b ai human) =
     {i. i < length b \<and> b ! i = None \<and>
         (\<forall>j < length b. b ! j = None \<longrightarrow> scoreOf b ai human j \<le> scoreOf b ai human i)}"
proof -
  obtain best moves where fd:
    "fold (selectStep (scoreOf b ai human)) (empties b) (NegInf, []) = (best, moves)"
    by (cases "fold (selectStep (scoreOf b ai human)) (empties b) (NegInf, [])") auto
  note sr = select_result[OF fd]
  have mv: "bestMoves b ai human = moves" by (simp add: bestMoves_def fd)
  have em: "set (empties b) = {i. i < length b \<and> b ! i = None}" by (auto simp: empties_def)
  show ?thesis
  proof (intro set_eqI iffI)
    fix i assume "i \<in> set (bestMoves b ai human)"
    then have "i \<in> set (empties b)" "scoreOf b ai human i = best" using mv sr(1) by auto
    with sr(2) em show "i \<in> {i. i < length b \<and> b ! i = None \<and>
         (\<forall>j < length b. b ! j = None \<longrightarrow> scoreOf b ai human j \<le> scoreOf b ai human i)}"
      by auto
  next
    fix i assume i: "i \<in> {i. i < length b \<and> b ! i = None \<and>
         (\<forall>j < length b. b ! j = None \<longrightarrow> scoreOf b ai human j \<le> scoreOf b ai human i)}"
    then have ie: "i \<in> set (empties b)" using em by auto
    then have ne: "empties b \<noteq> []" by auto
    from sr(3)[OF ne] obtain k where k: "k \<in> set moves" by (cases moves) auto
    then have ke: "k \<in> set (empties b)" "scoreOf b ai human k = best" using sr(1) by auto
    then have "best \<le> scoreOf b ai human i" using i em by auto
    moreover have "scoreOf b ai human i \<le> best" using sr(2) ie by auto
    ultimately have "scoreOf b ai human i = best" by simp
    then show "i \<in> set (bestMoves b ai human)" using mv sr(1) ie by auto
  qed
qed

lemma bestMoves_empty: "(bestMoves b ai human = []) = isFull b"
proof
  assume e: "bestMoves b ai human = []"
  obtain best moves where fd:
    "fold (selectStep (scoreOf b ai human)) (empties b) (NegInf, []) = (best, moves)"
    by (cases "fold (selectStep (scoreOf b ai human)) (empties b) (NegInf, [])") auto
  from select_result(3)[OF fd] e have "empties b = []" by (auto simp: bestMoves_def fd)
  then show "isFull b" using not_full_empties by blast
next
  assume "isFull b"
  then have "empties b = []"
    by (auto simp: isFull_def empties_def list_all_iff filter_empty_conv)
  then show "bestMoves b ai human = []" by (simp add: bestMoves_def)
qed

lemma pickMove_in:
  assumes "moves \<noteq> []" "0 \<le> r" "r < 1"
  shows "\<exists>i \<in> set moves. pickMove moves r = MoveIndex i"
proof -
  let ?n = "length moves"
  have n: "0 < real ?n" using assms(1) by simp
  have "r * real ?n < real ?n" using assms(3) n by simp
  then have up: "\<lfloor>r * real ?n\<rfloor> < int ?n" by (simp add: floor_less_iff)
  have lo: "0 \<le> \<lfloor>r * real ?n\<rfloor>" using assms(2) by simp
  from lo up have "nat \<lfloor>r * real ?n\<rfloor> < ?n" by linarith
  then have "moves ! nat \<lfloor>r * real ?n\<rfloor> \<in> set moves" by simp
  with lo up show ?thesis by (auto simp: pickMove_def Let_def)
qed

lemma pickMove_any:
  assumes "k < length moves"
  shows "\<exists>r. 0 \<le> r \<and> r < 1 \<and> pickMove moves r = MoveIndex (moves ! k)"
proof -
  let ?n = "length moves"
  let ?r = "real k / real ?n"
  have "moves \<noteq> []" using assms by auto
  then have n: "0 < real ?n" by simp
  have "?r * real ?n = real k" using n by simp
  then have "\<lfloor>?r * real ?n\<rfloor> = int k" by simp
  then have "pickMove moves ?r = MoveIndex (moves ! k)"
    using assms by (simp add: pickMove_def Let_def)
  moreover have "0 \<le> ?r" by simp
  moreover have "?r < 1" using assms n by (simp add: divide_less_eq)
  ultimately show ?thesis by blast
qed

subsection \<open>Best candidates; the board is restored for any fuel\<close>

lemma maximalCandidate_enough:
  assumes "searchFuel b \<le> f"
  shows "maximalCandidate f b ai human i = (i \<in> set (bestMoves b ai human))"
  unfolding maximalCandidate_def bestMoves_set
  by (auto simp: candidateScore_enough[OF assms] list_all_iff empties_def)

lemma frame_any_fuel:
  "(\<forall>b d isMax ai human v b'. minimax f b d isMax ai human = Some (v, b') \<longrightarrow> b' = b)
   \<and> (\<forall>b d ai human i best v b'. maxLoop f b d ai human i best = Some (v, b') \<longrightarrow> b' = b)
   \<and> (\<forall>b d ai human i best v b'. minLoop f b d ai human i best = Some (v, b') \<longrightarrow> b' = b)"
proof (induction f)
  case 0
  show ?case by simp
next
  case (Suc f)
  note mm = Suc[THEN conjunct1, rule_format]
  note mx = Suc[THEN conjunct2, THEN conjunct1, rule_format]
  note mn = Suc[THEN conjunct2, THEN conjunct2, rule_format]
  have a: "b' = b" if "minimax (Suc f) b d isMax ai human = Some (v, b')"
    for b d isMax ai human v b'
    using that mx mn by (auto split: option.splits if_splits)
  have b: "b' = b" if h: "maxLoop (Suc f) b d ai human i best = Some (v, b')"
    for b d ai human i best v b'
  proof (cases "i < length b \<and> b ! i = None")
    case True
    with h obtain s b1 where m: "minimax f (b[i := Some ai]) (d + 1) False ai human = Some (s, b1)"
      and l: "maxLoop f (b1[i := None]) d ai human (i + 1) (max best s) = Some (v, b')"
      by (auto split: option.splits)
    from mm[OF m] have "b1[i := None] = b" using True by (simp add: restore_cell)
    with l mx show ?thesis by metis
  next
    case False
    with h mx show ?thesis by (auto split: if_splits)
  qed
  have c: "b' = b" if h: "minLoop (Suc f) b d ai human i best = Some (v, b')"
    for b d ai human i best v b'
  proof (cases "i < length b \<and> b ! i = None")
    case True
    with h obtain s b1 where m: "minimax f (b[i := Some human]) (d + 1) True ai human = Some (s, b1)"
      and l: "minLoop f (b1[i := None]) d ai human (i + 1) (min best s) = Some (v, b')"
      by (auto split: option.splits)
    from mm[OF m] have "b1[i := None] = b" using True by (simp add: restore_cell)
    with l mn show ?thesis by metis
  next
    case False
    with h mn show ?thesis by (auto split: if_splits)
  qed
  from a b c show ?case by blast
qed

lemma rootLoop_frame:
  "rootLoop f b ai human i best moves = Some (best', moves', b') \<Longrightarrow> b' = b"
proof (induction f arbitrary: i best moves)
  case 0
  then show ?case by simp
next
  case (Suc f)
  show ?case
  proof (cases "i < length b \<and> b ! i = None")
    case True
    with Suc.prems obtain s b1 where m: "minimax f (b[i := Some ai]) 0 False ai human = Some (s, b1)"
      by (auto split: option.splits)
    from frame_any_fuel[THEN conjunct1, rule_format, OF m] have r: "b1[i := None] = b"
      using True by (simp add: restore_cell)
    have step: "rootLoop (Suc f) b ai human i best moves =
        (if best < s then rootLoop f b ai human (i + 1) s [i]
         else if s = best then rootLoop f b ai human (i + 1) best (moves @ [i])
         else rootLoop f b ai human (i + 1) best moves)"
      using True by (simp add: m r)
    from Suc.prems[unfolded step]
    have "\<exists>i2 best2 moves2. rootLoop f b ai human i2 best2 moves2 = Some (best', moves', b')"
      by (metis (full_types))
    then show ?thesis using Suc.IH by blast
  next
    case False
    then have step: "rootLoop (Suc f) b ai human i best moves =
        (if i < length b then rootLoop f b ai human (i + 1) best moves else Some (best, moves, b))"
      by auto
    show ?thesis
    proof (cases "i < length b")
      case True
      with Suc.prems[unfolded step] show ?thesis using Suc.IH by simp
    next
      case False
      with Suc.prems[unfolded step] show ?thesis by simp
    qed
  qed
qed

subsection \<open>Completed lines\<close>






subsection \<open>The controller at rest\<close>

lemma winnerInfo_emptyBoard: "winnerInfo emptyBoard = None"
  by (simp add: winnerInfo_def LINES_def lineTest_def cellAt_def emptyBoard_def)

lemma isFull_emptyBoard: "\<not> isFull emptyBoard"
  by (simp add: isFull_def emptyBoard_def list_all_iff)

lemma outcomeOf_emptyBoard: "outcomeOf emptyBoard h = None"
  by (simp add: outcomeOf_def winnerInfo_emptyBoard isFull_emptyBoard)

lemma winLineOf_emptyBoard: "winLineOf emptyBoard = []"
  by (simp add: winLineOf_def winnerInfo_emptyBoard)

lemma deriveResult_alt:
  "deriveResult s =
     s\<lparr>st_winLine := winLineOf (st_board s), st_result := outcomeOf (st_board s) (st_human s)\<rparr>"
  by (simp add: deriveResult_def winLineOf_def outcomeOf_def split: option.splits)

lemma step_fields:
  "st_board (step e s) = st_board (handler e s)"
  "st_human (step e s) = st_human (handler e s)"
  "st_turn (step e s) = st_turn (handler e s)"
  "st_winLine (step e s) = winLineOf (st_board (handler e s))"
  "st_result (step e s) = outcomeOf (st_board (handler e s)) (st_human (handler e s))"
  by (simp_all add: step_def tally_def deriveResult_alt split: option.splits)

lemma step_scoredRef:
  "st_scoredRef (step e s) =
     (case outcomeOf (st_board (handler e s)) (st_human (handler e s)) of
        None \<Rightarrow> st_scoredRef (handler e s)
      | Some res \<Rightarrow> Some res)"
  by (simp add: step_def tally_def deriveResult_alt split: option.splits)

lemma step_score:
  "st_score (step e s) =
     (case outcomeOf (st_board (handler e s)) (st_human (handler e s)) of
        None \<Rightarrow> st_score (handler e s)
      | Some res \<Rightarrow>
          if st_scoredRef (handler e s) = Some res then st_score (handler e s)
          else addOutcome res (st_score (handler e s)))"
  by (simp add: step_def tally_def deriveResult_alt split: option.splits)

lemma settled_noop: "settled s \<Longrightarrow> tally (deriveResult s) = s"
  by (auto simp: settled_def deriveResult_alt tally_def split: option.splits)

lemma handler_cases:
  "handler e s = s
   \<or> (st_result s = None \<and> st_scoredRef (handler e s) = st_scoredRef s
        \<and> st_score (handler e s) = st_score s)
   \<or> (st_board (handler e s) = emptyBoard \<and> st_scoredRef (handler e s) = None
        \<and> st_score (handler e s) = st_score s)"
proof (cases e)
  case (Click idx)
  then show ?thesis by (auto simp: clickCell_def)
next
  case (AiTimer r)
  then show ?thesis
    by (auto simp: aiMove_def split: option.splits prod.splits jsmove.splits)
next
  case Restart
  then show ?thesis by (simp add: restartRound_def)
next
  case (Choose m)
  then show ?thesis by (simp add: chooseSymbol_def)
next
  case Rerender
  then show ?thesis by simp
qed

lemma settled_step: "settled s \<Longrightarrow> settled (step e s)"
proof -
  assume st: "settled s"
  from handler_cases[of e s] show ?thesis
  proof (elim disjE)
    assume "handler e s = s"
    then have "step e s = s" using st by (simp add: step_def settled_noop)
    with st show ?thesis by simp
  next
    assume h: "st_result s = None \<and> st_scoredRef (handler e s) = st_scoredRef s
        \<and> st_score (handler e s) = st_score s"
    with st have "st_scoredRef (handler e s) = None" by (simp add: settled_def)
    then show ?thesis
      by (simp add: settled_def step_fields step_scoredRef split: option.splits)
  next
    assume h: "st_board (handler e s) = emptyBoard \<and> st_scoredRef (handler e s) = None
        \<and> st_score (handler e s) = st_score s"
    then show ?thesis
      by (simp add: settled_def step_fields step_scoredRef split: option.splits)
  qed
qed

lemma settled_initial: "settled initialApp"
  by (simp add: settled_def initialApp_def outcomeOf_emptyBoard winLineOf_emptyBoard)

lemma reachable_settled: "reachable s \<Longrightarrow> settled s"
  by (induction rule: reachable.induct) (simp_all add: settled_initial settled_step)

subsection \<open>The computer can avoid defeat when it moves second\<close>

lemma strategyChecks_holds: "strategyChecks"
  by code_simp

declare mmValue.simps [simp del] nonlosing.simps [simp del]

lemma empties_set: "set (empties b) = {i. i < length b \<and> b ! i = None}"
  by (auto simp: empties_def)

lemma safeMax_sound: "safeMax t ai human b \<Longrightarrow> nonlosing b True ai human"
proof (induction t arbitrary: b)
  case (St i ts)
  show ?case
  proof (cases "winnerInfo b")
    case (Some w)
    with St.prems show ?thesis by (subst nonlosing.simps) simp
  next
    case None
    show ?thesis
    proof (cases "isFull b")
      case True
      with None show ?thesis by (subst nonlosing.simps) simp
    next
      case False
      let ?b' = "b[i := Some ai]"
      from St.prems None False have i: "i < length b" "b ! i = None"
        and rest: "(case winnerInfo ?b' of
              Some w \<Rightarrow> symbol w = ai
            | None \<Rightarrow>
                isFull ?b' \<or>
                list_all2 (\<lambda>j chk. chk (?b'[j := Some human]))
                  (empties ?b') (map (\<lambda>t. safeMax t ai human) ts))"
        by simp_all
      have child: "nonlosing ?b' False ai human"
      proof (cases "winnerInfo ?b'")
        case (Some w)
        with rest show ?thesis by (subst nonlosing.simps) simp
      next
        case noWin: None
        show ?thesis
        proof (cases "isFull ?b'")
          case True
          with noWin show ?thesis by (subst nonlosing.simps) simp
        next
          case notFull: False
          from rest noWin notFull
          have l2: "list_all2 (\<lambda>j chk. chk (?b'[j := Some human]))
                  (empties ?b') (map (\<lambda>t. safeMax t ai human) ts)" by simp
          have "nonlosing (?b'[j := Some human]) True ai human" if "j \<in> set (empties ?b')" for j
          proof -
            from that obtain k where k: "k < length (empties ?b')" "empties ?b' ! k = j"
              by (auto simp: in_set_conv_nth)
            from l2 have len: "length (empties ?b') = length ts"
              by (auto dest: list_all2_lengthD)
            from l2 k len have "safeMax (ts ! k) ai human (?b'[j := Some human])"
              by (auto simp: list_all2_conv_all_nth)
            moreover have "ts ! k \<in> set ts" using k(1) len by simp
            ultimately show ?thesis by (rule St.IH[rotated])
          qed
          with noWin notFull show ?thesis
            by (subst nonlosing.simps) (simp add: list_all_iff)
        qed
      qed
      have "i \<in> set (empties b)" using i by (simp add: empties_set)
      with child None False show ?thesis
        by (subst nonlosing.simps) (auto simp: list_ex_iff)
    qed
  qed
qed

lemma nonlosing_start: "nonlosing emptyBoard False SymO SymX"
proof -
  have "nonlosing (emptyBoard[j := Some SymX]) True SymO SymX" if "j \<in> set (empties emptyBoard)" for j
  proof -
    from that obtain k where k: "k < length (empties emptyBoard)" "empties emptyBoard ! k = j"
      by (auto simp: in_set_conv_nth)
    have l2: "list_all2 (\<lambda>j t. safeMax t SymO SymX (emptyBoard[j := Some SymX]))
       (empties emptyBoard) secondPlayerStrategy"
      using strategyChecks_holds by (simp add: strategyChecks_def)
    with k have "safeMax (secondPlayerStrategy ! k) SymO SymX (emptyBoard[j := Some SymX])"
      by (auto simp: list_all2_conv_all_nth)
    then show ?thesis by (rule safeMax_sound)
  qed
  then show ?thesis
    by (subst nonlosing.simps) (simp add: winnerInfo_emptyBoard isFull_emptyBoard list_all_iff)
qed

lemma fold_max_ge:
  "(c \<le> fold (\<lambda>i acc. max acc (g i)) xs (a::jsnum)) = (c \<le> a \<or> (\<exists>i \<in> set xs. c \<le> g i))"
  by (induction xs arbitrary: a) (auto simp: le_max_iff_disj)

lemma fold_min_ge:
  "(c \<le> fold (\<lambda>i acc. min acc (g i)) xs (a::jsnum)) = (c \<le> a \<and> (\<forall>i \<in> set xs. c \<le> g i))"
  by (induction xs arbitrary: a) auto

lemma mmValue_sign:
  "d + int (length (empties b)) < 10 \<Longrightarrow>
     (Fin 0 \<le> mmValue b d isMax ai human) = nonlosing b isMax ai human"
proof (induction b d isMax ai human rule: mmValue.induct)
  case (1 b d isMax ai human)
  show ?case
  proof (cases "winnerInfo b")
    case (Some w)
    with "1.prems" show ?thesis
      by (subst mmValue.simps, subst nonlosing.simps) auto
  next
    case None
    show ?thesis
    proof (cases "isFull b")
      case True
      with None show ?thesis by (subst mmValue.simps, subst nonlosing.simps) simp
    next
      case False
      have dec: "d + 1 + int (length (empties (b[j := Some m]))) < 10" if "j \<in> set (empties b)" for j m
        using empties_update_less[OF that, of m] "1.prems" by linarith
      show ?thesis
      proof (cases isMax)
        case True
        have "(Fin 0 \<le> mmValue (b[j := Some ai]) (d + 1) False ai human)
            = nonlosing (b[j := Some ai]) False ai human" if "j \<in> set (empties b)" for j
          using "1.IH"(1)[OF None False True that dec[OF that]] .
        with None False True show ?thesis
          by (subst mmValue.simps, subst nonlosing.simps) (simp add: fold_max_ge list_ex_iff)
      next
        case isMin: False
        have "(Fin 0 \<le> mmValue (b[j := Some human]) (d + 1) True ai human)
            = nonlosing (b[j := Some human]) True ai human" if "j \<in> set (empties b)" for j
          using "1.IH"(2)[OF None False isMin that dec[OF that]] .
        with None False isMin show ?thesis
          by (subst mmValue.simps, subst nonlosing.simps) (simp add: fold_min_ge list_all_iff)
      qed
    qed
  qed
qed

subsection \<open>The invariant of a round\<close>

lemma pickMove_index: "pickMove ms r = MoveIndex i \<Longrightarrow> i \<in> set ms"
proof -
  let ?k = "\<lfloor>r * real (length ms)\<rfloor>"
  assume "pickMove ms r = MoveIndex i"
  then have k: "0 \<le> ?k" "?k < int (length ms)" and i: "i = ms ! nat ?k"
    by (auto simp: pickMove_def Let_def split: if_splits)
  from k have "nat ?k < length ms" by linarith
  with i show ?thesis by simp
qed

lemma outcomeOf_None: "outcomeOf b h = None \<Longrightarrow> winnerInfo b = None \<and> \<not> isFull b"
  by (auto simp: outcomeOf_def split: option.splits if_splits)

lemma empties_le: "length (empties b) \<le> length b"
  unfolding empties_def by (metis diff_zero length_filter_le length_upt)

lemma nonlosing_min_child:
  assumes "nonlosing b False ai human" "winnerInfo b = None" "\<not> isFull b"
    and "i < length b" "b ! i = None"
  shows "nonlosing (b[i := Some human]) True ai human"
proof -
  from assms(1,2,3) have "list_all (\<lambda>i. nonlosing (b[i := Some human]) True ai human) (empties b)"
    by (subst (asm) nonlosing.simps) simp
  moreover have "i \<in> set (empties b)" using assms(4,5) by (simp add: empties_set)
  ultimately show ?thesis by (simp add: list_all_iff)
qed

lemma nonlosing_best_child:
  assumes "nonlosing b True ai human" "winnerInfo b = None" "\<not> isFull b"
    and "length b \<le> 9" and "i \<in> set (bestMoves b ai human)"
  shows "nonlosing (b[i := Some ai]) False ai human"
proof -
  from assms(1,2,3) have "list_ex (\<lambda>i. nonlosing (b[i := Some ai]) False ai human) (empties b)"
    by (subst (asm) nonlosing.simps) simp
  then obtain j where j: "j \<in> set (empties b)" "nonlosing (b[j := Some ai]) False ai human"
    by (auto simp: list_ex_iff)
  have bound: "0 + int (length (empties (b[k := Some ai]))) < 10" if "k \<in> set (empties b)" for k
    using empties_update_less[OF that, of ai] empties_le[of b] assms(4) by linarith
  from j have "Fin 0 \<le> scoreOf b ai human j"
    by (simp add: scoreOf_def mmValue_sign[OF bound])
  moreover from assms(5) j(1) have "scoreOf b ai human j \<le> scoreOf b ai human i"
    by (simp add: bestMoves_set empties_set)
  ultimately have ge: "Fin 0 \<le> scoreOf b ai human i" by (rule order_trans)
  from assms(5) have ie: "i \<in> set (empties b)" by (simp add: bestMoves_set empties_set)
  from ge show ?thesis by (simp add: scoreOf_def mmValue_sign[OF bound[OF ie]])
qed

lemma aiOf_X: "st_human s = SymX \<Longrightarrow> aiOf s = SymO"
  by (simp add: aiOf_def)

lemma safe_handler:
  assumes "safeState s" "e \<noteq> Choose SymO"
  shows "st_human (handler e s) = SymX \<and> length (st_board (handler e s)) = 9
     \<and> nonlosing (st_board (handler e s)) (st_turn (handler e s) = SymO) SymO SymX"
proof -
  from assms(1) have hu: "st_human s = SymX" and len: "length (st_board s) = 9"
    and res: "st_result s = outcomeOf (st_board s) SymX"
    and nl: "nonlosing (st_board s) (st_turn s = SymO) SymO SymX"
    by (simp_all add: safeState_def)
  have same: ?thesis if "handler e s = s" using that hu len nl by simp
  show ?thesis
  proof (cases e)
    case (Click idx)
    show ?thesis
    proof (cases "clickCell idx s = s")
      case True
      with Click same show ?thesis by simp
    next
      case False
      then have g: "st_result s = None" "st_turn s = SymX" "cellAt (st_board s) idx = Some None"
        using hu by (auto simp: clickCell_def split: if_splits)
      from g(3) have idx: "idx < length (st_board s)" "st_board s ! idx = None"
        by (auto simp: cellAt_def split: if_splits)
      from g(1) res have nt: "winnerInfo (st_board s) = None" "\<not> isFull (st_board s)"
        using outcomeOf_None[of "st_board s" SymX] by simp_all
      from nl g(2) have "nonlosing (st_board s) False SymO SymX" by simp
      from nonlosing_min_child[OF this nt idx]
      have "nonlosing ((st_board s)[idx := Some SymX]) True SymO SymX" .
      with Click g hu len show ?thesis by (simp add: clickCell_def aiOf_X)
    qed
  next
    case (AiTimer r)
    show ?thesis
    proof (cases "aiMove r s = s")
      case True
      with AiTimer same show ?thesis by simp
    next
      case False
      let ?b = "st_board s"
      have bm: "bestMove (searchFuel ?b) ?b SymO SymX r =
          Some (if bestMoves ?b SymO SymX = [] then MoveNull
                else pickMove (bestMoves ?b SymO SymX) r, ?b)"
        by (rule bestMove_enough) simp
      from False have g: "st_result s = None" "st_turn s = SymO"
        using hu by (auto simp: aiMove_def aiOf_X split: if_splits)
      from False g bm hu obtain mv where mv: "pickMove (bestMoves ?b SymO SymX) r = MoveIndex mv"
        and ne: "bestMoves ?b SymO SymX \<noteq> []"
        by (auto simp: aiMove_def aiOf_X split: if_splits jsmove.splits)
      from pickMove_index[OF mv] have mem: "mv \<in> set (bestMoves ?b SymO SymX)" .
      then have idx: "mv < length ?b" "?b ! mv = None" by (simp_all add: bestMoves_set)
      from g(1) res have nt: "winnerInfo ?b = None" "\<not> isFull ?b"
        using outcomeOf_None[of ?b SymX] by simp_all
      from nl g(2) have "nonlosing ?b True SymO SymX" by simp
      from nonlosing_best_child[OF this nt _ mem] len
      have "nonlosing (?b[mv := Some SymO]) False SymO SymX" by simp
      with AiTimer g hu len bm mv ne idx show ?thesis
        by (simp add: aiMove_def aiOf_X cellAt_def)
    qed
  next
    case Restart
    then show ?thesis using hu nonlosing_start by (simp add: restartRound_def emptyBoard_def)
  next
    case (Choose m)
    with assms(2) have "m = SymX" by (cases m) auto
    with Choose hu same show ?thesis by (simp add: chooseSymbol_def)
  next
    case Rerender
    with same show ?thesis by simp
  qed
qed

lemma safe_step: "safeState s \<Longrightarrow> e \<noteq> Choose SymO \<Longrightarrow> safeState (step e s)"
  using safe_handler[of s e] by (simp add: safeState_def step_fields)

lemma safe_run: "safeState s \<Longrightarrow> \<forall>e \<in> set es. e \<noteq> Choose SymO \<Longrightarrow> safeState (run s es)"
  by (induction es arbitrary: s) (simp_all add: safe_step)

lemma safe_not_lost: "safeState s \<Longrightarrow> st_result s \<noteq> Some HumanWin"
proof
  assume s: "safeState s" and r: "st_result s = Some HumanWin"
  then have "outcomeOf (st_board s) SymX = Some HumanWin" by (simp add: safeState_def)
  then obtain w where w: "winnerInfo (st_board s) = Some w" "symbol w = SymX"
    by (auto simp: outcomeOf_def split: option.splits if_splits)
  from s have "nonlosing (st_board s) (st_turn s = SymO) SymO SymX" by (simp add: safeState_def)
  with w show False by (subst (asm) nonlosing.simps) simp
qed

subsection \<open>Lines of play, and the depth at which a position is scored\<close>










section \<open>The claims\<close>

text \<open>
  C1. On a board with an empty cell, and with enough fuel, \<open>bestMove\<close> returns the index
  of an empty cell whose candidate score is maximal among the empty cells, whatever
  number in \<open>[0, 1)\<close> the random source yields; and every such cell is returned for some
  number. The score of a candidate does not depend on the fuel once the fuel suffices
  (\<open>candidateScore_enough\<close>), so the scores compared here are the ones the loop compares.
\<close>

theorem bestMove_picks_maximal_empty_cell:
  assumes "searchFuel board \<le> fuel" and "0 \<le> r" and "r < 1"
    and "i0 < length board" and "board ! i0 = None"
  shows "(\<exists>i. bestMove fuel board ai human r = Some (MoveIndex i, board)
            \<and> maximalCandidate fuel board ai human i)
     \<and> (\<forall>i. maximalCandidate fuel board ai human i \<longrightarrow>
            (\<exists>r'. 0 \<le> r' \<and> r' < 1 \<and> bestMove fuel board ai human r' = Some (MoveIndex i, board)))"
proof (intro conjI allI impI)
  have "\<not> isFull board" using assms(4,5) by (auto simp: isFull_def list_all_iff in_set_conv_nth)
  then have ne: "bestMoves board ai human \<noteq> []" by (simp add: bestMoves_empty)
  from pickMove_in[OF ne assms(2,3)] obtain i where
    i: "i \<in> set (bestMoves board ai human)" "pickMove (bestMoves board ai human) r = MoveIndex i"
    by blast
  show "\<exists>i. bestMove fuel board ai human r = Some (MoveIndex i, board)
            \<and> maximalCandidate fuel board ai human i"
    using i ne by (auto simp: bestMove_enough[OF assms(1)] maximalCandidate_enough[OF assms(1)])
next
  fix i assume "maximalCandidate fuel board ai human i"
  then have "i \<in> set (bestMoves board ai human)" by (simp add: maximalCandidate_enough[OF assms(1)])
  then obtain k where k: "k < length (bestMoves board ai human)" "bestMoves board ai human ! k = i"
    by (auto simp: in_set_conv_nth)
  from pickMove_any[OF k(1)] k(2) obtain r' where
    "0 \<le> r'" "r' < 1" "pickMove (bestMoves board ai human) r' = MoveIndex i" by auto
  moreover from k(1) have "bestMoves board ai human \<noteq> []" by auto
  ultimately show "\<exists>r'. 0 \<le> r' \<and> r' < 1 \<and> bestMove fuel board ai human r' = Some (MoveIndex i, board)"
    by (auto simp: bestMove_enough[OF assms(1)])
qed

theorem bestMove_picks_maximal_empty_cell_witness:
  "bestMove 110 [Some SymX, Some SymO, Some SymX, Some SymX, Some SymO, None, None, None, None]
      SymO SymX 0
     = Some (MoveIndex 7, [Some SymX, Some SymO, Some SymX, Some SymX, Some SymO, None, None, None, None])
   \<and> maximalCandidate 110
        [Some SymX, Some SymO, Some SymX, Some SymX, Some SymO, None, None, None, None] SymO SymX 7
   \<and> (\<exists>r'. 0 \<le> r' \<and> r' < 1 \<and>
        bestMove 110 [Some SymX, Some SymO, Some SymX, Some SymX, Some SymO, None, None, None, None]
          SymO SymX r'
        = Some (MoveIndex 7, [Some SymX, Some SymO, Some SymX, Some SymX, Some SymO, None, None, None, None]))"
proof -
  let ?b = "[Some SymX, Some SymO, Some SymX, Some SymX, Some SymO, None, None, None, None]"
  have f: "searchFuel ?b \<le> 110" by (simp add: searchFuel_def)
  have e: "bestMove 110 ?b SymO SymX 0 = Some (MoveIndex 7, ?b)" by code_simp
  from bestMove_picks_maximal_empty_cell[of ?b 110 0 5 SymO SymX, OF f] e
  show ?thesis by auto
qed



text \<open>
  C3. For every board, \<open>winnerInfo\<close> returns a result if and only if one of the eight
  lines holds the same symbol in all three cells; it returns none for the empty board;
  and a result it returns is the first such line in the order of \<open>LINES\<close> (rows, then
  columns, then diagonals) together with the symbol on it.
\<close>

theorem winnerInfo_first_uniform_line:
  "((\<exists>w. winnerInfo board = Some w) = (\<exists>l \<in> set LINES. \<exists>m. uniformLine board l m))
   \<and> winnerInfo emptyBoard = None
   \<and> (\<forall>w. winnerInfo board = Some w \<longrightarrow>
        (\<exists>k < length LINES. uniformLine board (LINES ! k) (symbol w)
           \<and> line w = lineCells (LINES ! k)
           \<and> (\<forall>j < k. \<forall>m. \<not> uniformLine board (LINES ! j) m)))"
proof (intro conjI allI impI)
  have "(\<exists>w. winnerInfo board = Some w) = (\<not> (\<forall>l \<in> set LINES. lineTest board l = None))"
    using scanLines_None[of board LINES] by (auto simp: winnerInfo_def)
  then show "(\<exists>w. winnerInfo board = Some w) = (\<exists>l \<in> set LINES. \<exists>m. uniformLine board l m)"
    by (simp add: lineTest_None)
next
  show "winnerInfo emptyBoard = None"
    by (simp add: winnerInfo_def scanLines_None LINES_def lineTest_def cellAt_def emptyBoard_def)
next
  fix w assume "winnerInfo board = Some w"
  then have "scanLines board LINES = Some w" by (simp add: winnerInfo_def)
  from scanLines_Some[OF this]
  show "\<exists>k < length LINES. uniformLine board (LINES ! k) (symbol w)
           \<and> line w = lineCells (LINES ! k)
           \<and> (\<forall>j < k. \<forall>m. \<not> uniformLine board (LINES ! j) m)"
    by (simp add: lineTest_uniform lineTest_None)
qed

theorem winnerInfo_first_uniform_line_witness:
  "winnerInfo [Some SymO, Some SymX, Some SymX, Some SymO, Some SymX, None, Some SymO, None, None]
     = Some \<lparr>symbol = SymO, line = [0, 3, 6]\<rparr>
   \<and> (\<exists>k < length LINES.
        uniformLine [Some SymO, Some SymX, Some SymX, Some SymO, Some SymX, None, Some SymO, None, None]
          (LINES ! k) SymO
        \<and> [0, 3, 6] = lineCells (LINES ! k)
        \<and> (\<forall>j < k. \<forall>m. \<not> uniformLine
             [Some SymO, Some SymX, Some SymX, Some SymO, Some SymX, None, Some SymO, None, None]
             (LINES ! j) m))"
proof -
  have w: "winnerInfo
      [Some SymO, Some SymX, Some SymX, Some SymO, Some SymX, None, Some SymO, None, None]
    = Some \<lparr>symbol = SymO, line = [0, 3, 6]\<rparr>"
    by (simp add: winnerInfo_def LINES_def lineTest_def cellAt_def)
  from winnerInfo_first_uniform_line
    [of "[Some SymO, Some SymX, Some SymX, Some SymO, Some SymX, None, Some SymO, None, None]"] w
  show ?thesis by simp
qed

text \<open>
  C4. A round starts on the empty board with the human holding \<open>SymX\<close> and to move. After
  any sequence of clicks, timer firings (with any random numbers), restarts and renders
  in which the human keeps \<open>SymX\<close>, the result is not a win of the human: the round is
  still open, or won by the computer, or drawn.
\<close>

theorem computer_second_never_loses:
  assumes "st_board s = emptyBoard" and "st_human s = SymX" and "st_turn s = SymX"
    and "st_result s = None" and "\<forall>e \<in> set es. e \<noteq> Choose SymO"
  shows "st_result (run s es) \<noteq> Some HumanWin
     \<and> (st_result (run s es) = None \<or> st_result (run s es) = Some AiWin
          \<or> st_result (run s es) = Some Draw)"
proof -
  have "safeState s"
    using assms(1-4) nonlosing_start
    by (simp add: safeState_def outcomeOf_emptyBoard) (simp add: emptyBoard_def)
  from safe_run[OF this assms(5)] have "st_result (run s es) \<noteq> Some HumanWin"
    by (rule safe_not_lost)
  then show ?thesis by (cases "st_result (run s es)") (auto intro: outcome.exhaust)
qed

theorem computer_second_never_loses_witness:
  "st_result (run initialApp [Click 4, AiTimer 0, Click 8, AiTimer (1 / 2), Click 1, AiTimer 0,
      Click 6, AiTimer 0, Click 3, AiTimer 0]) \<noteq> Some HumanWin"
proof -
  have "\<forall>e \<in> set [Click 4, AiTimer 0, Click 8, AiTimer (1 / 2), Click 1, AiTimer 0,
      Click 6, AiTimer 0, Click 3, AiTimer 0]. e \<noteq> Choose SymO" by simp
  from computer_second_never_loses[of initialApp, OF _ _ _ _ this]
  show ?thesis by (simp add: initialApp_def)
qed

text \<open>
  C5. A click while the round is over, or while it is not the human's turn, or on a cell
  that is not an empty cell of the board, leaves the whole state as it is: the handler
  returns it unchanged, and so does the step when the effects were at rest.
\<close>

theorem illegal_click_is_noop:
  assumes "st_result s \<noteq> None \<or> st_turn s \<noteq> st_human s \<or> cellAt (st_board s) idx \<noteq> Some None"
  shows "clickCell idx s = s \<and> (settled s \<longrightarrow> step (Click idx) s = s)"
proof -
  from assms have "clickCell idx s = s" by (auto simp: clickCell_def)
  then show ?thesis by (simp add: step_def settled_noop)
qed

theorem illegal_click_is_noop_witness:
  "clickCell 4 (step (Click 4) initialApp) = step (Click 4) initialApp
   \<and> step (Click 4) (step (Click 4) initialApp) = step (Click 4) initialApp
   \<and> st_board (step (Click 4) initialApp)
       = [None, None, None, None, Some SymX, None, None, None, None]"
proof -
  have a: "cellAt (st_board (step (Click 4) initialApp)) 4 \<noteq> Some None" by code_simp
  have b: "settled (step (Click 4) initialApp)"
    by (rule settled_step[OF settled_initial])
  have c: "st_board (step (Click 4) initialApp)
       = [None, None, None, None, Some SymX, None, None, None, None]" by code_simp
  from illegal_click_is_noop[of "step (Click 4) initialApp" 4] a b c show ?thesis by simp
qed

text \<open>
  C6. Every reachable state has its effects at rest; and from such a state every event
  leaves the score as it is, except an event that ends the round: a win of the human
  adds one to \<open>wins\<close>, a win of the computer one to \<open>losses\<close>, a draw one to \<open>draws\<close>, and
  the two other counters stay. The result is the one read off the board: the human's
  win when the first completed line holds the human's symbol, the computer's when it
  holds the other, a draw on a full board without a line. Running the effects again on
  the state after the event changes nothing.
\<close>

theorem score_counted_once:
  "(reachable s \<longrightarrow> settled s)
   \<and> (settled s \<longrightarrow>
        st_score (step e s) =
           (case st_result s of
              Some res \<Rightarrow> st_score s
            | None \<Rightarrow>
                (case st_result (step e s) of
                   None \<Rightarrow> st_score s
                 | Some HumanWin \<Rightarrow> (st_score s)\<lparr>wins := wins (st_score s) + 1\<rparr>
                 | Some AiWin \<Rightarrow> (st_score s)\<lparr>losses := losses (st_score s) + 1\<rparr>
                 | Some Draw \<Rightarrow> (st_score s)\<lparr>draws := draws (st_score s) + 1\<rparr>))
        \<and> st_result (step e s) =
           (case winnerInfo (st_board (step e s)) of
              Some w \<Rightarrow> Some (if symbol w = st_human (step e s) then HumanWin else AiWin)
            | None \<Rightarrow> if isFull (st_board (step e s)) then Some Draw else None)
        \<and> step Rerender (step e s) = step e s
        \<and> tally (step e s) = step e s)"
proof (intro conjI impI)
  assume "reachable s" then show "settled s" by (rule reachable_settled)
next
  assume st: "settled s"
  have st': "settled (step e s)" using st by (rule settled_step)
  show "step Rerender (step e s) = step e s"
    using st' by (simp add: step_def settled_noop)
  show "tally (step e s) = step e s"
    using st' by (auto simp: settled_def tally_def split: option.splits)
  show "st_result (step e s) =
           (case winnerInfo (st_board (step e s)) of
              Some w \<Rightarrow> Some (if symbol w = st_human (step e s) then HumanWin else AiWin)
            | None \<Rightarrow> if isFull (st_board (step e s)) then Some Draw else None)"
    by (simp add: step_fields outcomeOf_def split: option.splits)
  have add: "addOutcome res sc =
      (case res of HumanWin \<Rightarrow> sc\<lparr>wins := wins sc + 1\<rparr>
       | AiWin \<Rightarrow> sc\<lparr>losses := losses sc + 1\<rparr>
       | Draw \<Rightarrow> sc\<lparr>draws := draws sc + 1\<rparr>)" for res sc
    by (cases res) simp_all
  from handler_cases[of e s]
  have "st_score (step e s) =
           (case st_result s of
              Some res \<Rightarrow> st_score s
            | None \<Rightarrow> (case st_result (step e s) of
                         None \<Rightarrow> st_score s
                       | Some res \<Rightarrow> addOutcome res (st_score s)))"
  proof (elim disjE)
    assume "handler e s = s"
    then have "step e s = s" using st by (simp add: step_def settled_noop)
    then show ?thesis by (simp split: option.splits)
  next
    assume h: "st_result s = None \<and> st_scoredRef (handler e s) = st_scoredRef s
        \<and> st_score (handler e s) = st_score s"
    with st have "st_scoredRef (handler e s) = None" by (simp add: settled_def)
    with h show ?thesis
      by (simp add: step_fields step_score split: option.splits)
  next
    assume h: "st_board (handler e s) = emptyBoard \<and> st_scoredRef (handler e s) = None
        \<and> st_score (handler e s) = st_score s"
    then show ?thesis
      by (simp add: step_fields step_score outcomeOf_emptyBoard split: option.splits)
  qed
  then show "st_score (step e s) =
           (case st_result s of
              Some res \<Rightarrow> st_score s
            | None \<Rightarrow>
                (case st_result (step e s) of
                   None \<Rightarrow> st_score s
                 | Some HumanWin \<Rightarrow> (st_score s)\<lparr>wins := wins (st_score s) + 1\<rparr>
                 | Some AiWin \<Rightarrow> (st_score s)\<lparr>losses := losses (st_score s) + 1\<rparr>
                 | Some Draw \<Rightarrow> (st_score s)\<lparr>draws := draws (st_score s) + 1\<rparr>))"
    by (simp add: add split: option.splits outcome.splits)
qed

theorem score_counted_once_witness:
  "st_result (step (Click 8) lateGame) = Some Draw
   \<and> st_score (step (Click 8) lateGame) = \<lparr>wins = 0, losses = 2, draws = 2\<rparr>
   \<and> step Rerender (step (Click 8) lateGame) = step (Click 8) lateGame
   \<and> st_score (step (Click 3) (step (Click 8) lateGame)) = \<lparr>wins = 0, losses = 2, draws = 2\<rparr>
   \<and> st_result (step (Click 2) lateWin) = Some HumanWin
   \<and> st_score (step (Click 2) lateWin) = \<lparr>wins = 5, losses = 2, draws = 1\<rparr>
   \<and> st_result (step (AiTimer 0) lateLoss) = Some AiWin
   \<and> st_score (step (AiTimer 0) lateLoss) = \<lparr>wins = 4, losses = 3, draws = 1\<rparr>"
proof -
  have s: "settled lateGame" "settled lateWin" "settled lateLoss" by code_simp+
  have r: "st_result lateGame = None" "st_result (step (Click 8) lateGame) = Some Draw"
    "st_score lateGame = \<lparr>wins = 0, losses = 2, draws = 1\<rparr>" by code_simp+
  have rw: "st_result lateWin = None" "st_result (step (Click 2) lateWin) = Some HumanWin"
    "st_score lateWin = \<lparr>wins = 4, losses = 2, draws = 1\<rparr>" by code_simp+
  have rl: "st_result lateLoss = None" "st_result (step (AiTimer 0) lateLoss) = Some AiWin"
    "st_score lateLoss = \<lparr>wins = 4, losses = 2, draws = 1\<rparr>" by code_simp+
  from score_counted_once[of lateGame "Click 8"] s(1) r
  have 1: "st_score (step (Click 8) lateGame) = \<lparr>wins = 0, losses = 2, draws = 2\<rparr>"
    and 2: "step Rerender (step (Click 8) lateGame) = step (Click 8) lateGame" by simp_all
  have s': "settled (step (Click 8) lateGame)" using s(1) by (rule settled_step)
  from score_counted_once[of "step (Click 8) lateGame" "Click 3"] s' r 1
  have 3: "st_score (step (Click 3) (step (Click 8) lateGame)) = \<lparr>wins = 0, losses = 2, draws = 2\<rparr>"
    by simp
  from score_counted_once[of lateWin "Click 2"] s(2) rw
  have 4: "st_score (step (Click 2) lateWin) = \<lparr>wins = 5, losses = 2, draws = 1\<rparr>" by simp
  from score_counted_once[of lateLoss "AiTimer 0"] s(3) rl
  have 5: "st_score (step (AiTimer 0) lateLoss) = \<lparr>wins = 4, losses = 3, draws = 1\<rparr>" by simp
  from r rw rl 1 2 3 4 5 show ?thesis by simp
qed

text \<open>
  C7, as amended. With enough fuel \<open>bestMove\<close> returns \<^verbatim>\<open>null\<close> exactly on a board without
  an empty cell; on every other board, decided or not, and for every random number in
  \<open>[0, 1)\<close>, it returns the index of an empty cell.
\<close>

theorem bestMove_null_iff_full:
  assumes "searchFuel board \<le> fuel"
  shows "((bestMove fuel board ai human r = Some (MoveNull, board)) = isFull board)
     \<and> (\<not> isFull board \<and> 0 \<le> r \<and> r < 1 \<longrightarrow>
          (\<exists>i < length board. board ! i = None
             \<and> bestMove fuel board ai human r = Some (MoveIndex i, board)))"
proof (intro conjI impI)
  show "(bestMove fuel board ai human r = Some (MoveNull, board)) = isFull board"
    by (auto simp: bestMove_enough[OF assms] bestMoves_empty pickMove_def Let_def)
next
  assume h: "\<not> isFull board \<and> 0 \<le> r \<and> r < 1"
  then have ne: "bestMoves board ai human \<noteq> []" by (simp add: bestMoves_empty)
  from pickMove_in[OF ne] h obtain i where
    i: "i \<in> set (bestMoves board ai human)" "pickMove (bestMoves board ai human) r = MoveIndex i"
    by blast
  from i(1) have "i < length board \<and> board ! i = None" by (simp add: bestMoves_set)
  with i(2) ne show "\<exists>i < length board. board ! i = None
             \<and> bestMove fuel board ai human r = Some (MoveIndex i, board)"
    by (auto simp: bestMove_enough[OF assms])
qed

theorem bestMove_null_iff_full_witness:
  "bestMove 110 [Some SymX, Some SymO, Some SymX, Some SymX, Some SymO, Some SymO, Some SymO,
        Some SymX, Some SymX] SymO SymX (1 / 2)
     = Some (MoveNull, [Some SymX, Some SymO, Some SymX, Some SymX, Some SymO, Some SymO, Some SymO,
        Some SymX, Some SymX])
   \<and> (\<exists>i < length [Some SymX, Some SymO, Some SymX, Some SymX, Some SymO, Some SymO, Some SymO,
        Some SymX, None]. [Some SymX, Some SymO, Some SymX, Some SymX, Some SymO, Some SymO, Some SymO,
        Some SymX, None] ! i = None
      \<and> bestMove 110 [Some SymX, Some SymO, Some SymX, Some SymX, Some SymO, Some SymO, Some SymO,
        Some SymX, None] SymO SymX (1 / 2)
        = Some (MoveIndex i, [Some SymX, Some SymO, Some SymX, Some SymX, Some SymO, Some SymO,
            Some SymO, Some SymX, None]))"
proof -
  let ?d = "[Some SymX, Some SymO, Some SymX, Some SymX, Some SymO, Some SymO, Some SymO,
        Some SymX, Some SymX]"
  let ?e = "[Some SymX, Some SymO, Some SymX, Some SymX, Some SymO, Some SymO, Some SymO,
        Some SymX, None]"
  have f: "searchFuel ?d \<le> 110" "searchFuel ?e \<le> 110" by (simp_all add: searchFuel_def)
  have d: "isFull ?d" "\<not> isFull ?e" by (simp_all add: isFull_def)
  have r01: "(0::real) \<le> 1 / 2" "(1 / 2 :: real) < 1" by simp_all
  from bestMove_null_iff_full[OF f(1), where ai = SymO and human = SymX and r = "1 / 2"] d(1)
  have 1: "bestMove 110 ?d SymO SymX (1 / 2) = Some (MoveNull, ?d)" by simp
  from bestMove_null_iff_full[OF f(2), where ai = SymO and human = SymX and r = "1 / 2"] d(2)
  have 2: "\<exists>i < length ?e. ?e ! i = None
      \<and> bestMove 110 ?e SymO SymX (1 / 2) = Some (MoveIndex i, ?e)"
    using r01 by blast
  from 1 2 show ?thesis by blast
qed

text \<open>
  C7 as stated fails on a board that holds a completed line and still has empty cells:
  every candidate gets the same score and one of them is returned.
\<close>

theorem bestMove_decided_board_counterexample:
  "hasLine [Some SymX, Some SymX, Some SymX, Some SymO, Some SymO, None, None, None, None] SymX
   \<and> bestMove 110 [Some SymX, Some SymX, Some SymX, Some SymO, Some SymO, None, None, None, None]
        SymO SymX 0
     = Some (MoveIndex 5, [Some SymX, Some SymX, Some SymX, Some SymO, Some SymO, None, None, None, None])"
proof -
  have "hasLine [Some SymX, Some SymX, Some SymX, Some SymO, Some SymO, None, None, None, None] SymX"
    by (simp add: hasLine_def LINES_def cellAt_def)
  moreover have "bestMove 110
      [Some SymX, Some SymX, Some SymX, Some SymO, Some SymO, None, None, None, None] SymO SymX 0
     = Some (MoveIndex 5, [Some SymX, Some SymX, Some SymX, Some SymO, Some SymO, None, None, None, None])"
    by code_simp
  ultimately show ?thesis by simp
qed

text \<open>
  C8, as amended. Restarting twice gives the state that restarting once gives: the empty
  board with \<open>SymX\<close> to move and no result. The controller then awaits the human when the
  human holds \<open>SymX\<close>, and the computer when the human holds \<open>SymO\<close>.
\<close>

theorem restart_idempotent:
  "step Restart (step Restart s) = step Restart s
   \<and> restartRound (restartRound s) = restartRound s
   \<and> st_board (step Restart s) = emptyBoard
   \<and> st_turn (step Restart s) = SymX
   \<and> st_result (step Restart s) = None
   \<and> phaseOf (step Restart s) =
        (if st_human s = SymX then AwaitingHuman else AwaitingComputer)"
proof -
  have r: "step Restart s = restartRound s" for s
    by (simp add: step_def restartRound_def deriveResult_alt tally_def outcomeOf_emptyBoard
        winLineOf_emptyBoard)
  show ?thesis unfolding r by (simp add: restartRound_def phaseOf_def)
qed

theorem restart_idempotent_witness:
  "phaseOf (step Restart (step (Click 4) initialApp)) = AwaitingHuman
   \<and> step Restart (step Restart (step (Click 4) initialApp)) = step Restart (step (Click 4) initialApp)
   \<and> st_board (step Restart (step (Click 4) initialApp)) = emptyBoard"
proof -
  have "st_human (step (Click 4) initialApp) = SymX" by code_simp
  with restart_idempotent[of "step (Click 4) initialApp"] show ?thesis by simp
qed

text \<open>
  C8 as stated fails once the human has chosen \<open>SymO\<close>: after a restart the computer is
  to move.
\<close>

theorem restart_awaits_computer_counterexample:
  "phaseOf (step Restart (step (Choose SymO) initialApp)) = AwaitingComputer
   \<and> phaseOf (restartRound (chooseSymbol SymO initialApp)) \<noteq> AwaitingHuman"
  by code_simp

text \<open>
  C9, as amended. Choosing a symbol other than the one the human holds clears the board,
  gives \<open>SymX\<close> the move and unsets the result, whatever the result was; the controller
  then awaits the human if the new symbol is \<open>SymX\<close> and the computer if it is \<open>SymO\<close>.
  Choosing the symbol the human already holds changes nothing.
\<close>

theorem chooseSymbol_resets_on_change:
  "(m \<noteq> st_human s \<longrightarrow>
      st_board (step (Choose m) s) = emptyBoard
      \<and> st_human (step (Choose m) s) = m
      \<and> st_turn (step (Choose m) s) = SymX
      \<and> st_result (step (Choose m) s) = None
      \<and> st_winLine (step (Choose m) s) = []
      \<and> st_score (step (Choose m) s) = st_score s
      \<and> phaseOf (step (Choose m) s) = (if m = SymX then AwaitingHuman else AwaitingComputer))
   \<and> (m = st_human s \<longrightarrow> chooseSymbol m s = s \<and> (settled s \<longrightarrow> step (Choose m) s = s))"
proof (intro conjI impI)
  assume "m = st_human s"
  then show c: "chooseSymbol m s = s" by (simp add: chooseSymbol_def)
  assume "settled s"
  with c show "step (Choose m) s = s" by (simp add: step_def settled_noop)
qed (simp_all add: step_fields step_score chooseSymbol_def outcomeOf_emptyBoard
      winLineOf_emptyBoard phaseOf_def)

theorem chooseSymbol_resets_on_change_witness:
  "st_board (step (Choose SymO) (step (Click 4) initialApp)) = emptyBoard
   \<and> phaseOf (step (Choose SymO) (step (Click 4) initialApp)) = AwaitingComputer
   \<and> chooseSymbol SymX (step (Click 4) initialApp) = step (Click 4) initialApp"
proof -
  have h: "st_human (step (Click 4) initialApp) = SymX" by code_simp
  from chooseSymbol_resets_on_change[of SymO "step (Click 4) initialApp"]
    chooseSymbol_resets_on_change[of SymX "step (Click 4) initialApp"] h
  show ?thesis by simp
qed

text \<open>
  C9 as stated fails when the human, holding \<open>SymX\<close>, chooses \<open>SymX\<close> in the middle of a
  round: the board keeps its contents and the computer stays to move.
\<close>

theorem chooseSymbol_same_mark_counterexample:
  "st_board (step (Choose SymX) (step (Click 4) initialApp))
     = [None, None, None, None, Some SymX, None, None, None, None]
   \<and> st_board (step (Choose SymX) (step (Click 4) initialApp)) \<noteq> emptyBoard
   \<and> phaseOf (step (Choose SymX) (step (Click 4) initialApp)) \<noteq> AwaitingHuman"
  by code_simp

text \<open>
  C10. With enough fuel \<open>bestMove\<close> returns, and the array is then as it was before the
  call; whenever \<open>bestMove\<close> or \<open>minimax\<close> return at all, with any fuel, the array is as it
  was before the call.
\<close>

theorem bestMove_restores_board:
  "(searchFuel board \<le> fuel \<longrightarrow> (\<exists>mv. bestMove fuel board ai human r = Some (mv, board)))
   \<and> (\<forall>mv board'. bestMove fuel board ai human r = Some (mv, board') \<longrightarrow> board' = board)
   \<and> (\<forall>v board'. minimax fuel board depth isMax ai human = Some (v, board') \<longrightarrow> board' = board)"
proof (intro conjI allI impI)
  assume "searchFuel board \<le> fuel"
  then show "\<exists>mv. bestMove fuel board ai human r = Some (mv, board)"
    by (simp add: bestMove_enough)
next
  fix mv board' assume "bestMove fuel board ai human r = Some (mv, board')"
  then obtain best moves where "rootLoop fuel board ai human 0 NegInf [] = Some (best, moves, board')"
    by (auto simp: bestMove_def split: option.splits if_splits)
  then show "board' = board" by (rule rootLoop_frame)
next
  fix v board' assume "minimax fuel board depth isMax ai human = Some (v, board')"
  then show "board' = board" by (rule frame_any_fuel[THEN conjunct1, rule_format])
qed

theorem bestMove_restores_board_witness:
  "(\<exists>mv. bestMove 110 [Some SymX, Some SymO, Some SymX, Some SymX, Some SymO, None, None, None, None]
       SymO SymX 0
     = Some (mv, [Some SymX, Some SymO, Some SymX, Some SymX, Some SymO, None, None, None, None]))
   \<and> snd (the (minimax 40 [Some SymX, Some SymO, Some SymX, Some SymX, Some SymO, None, None, None, None]
       0 True SymO SymX))
     = [Some SymX, Some SymO, Some SymX, Some SymX, Some SymO, None, None, None, None]"
proof -
  let ?b = "[Some SymX, Some SymO, Some SymX, Some SymX, Some SymO, None, None, None, None]"
  have f: "searchFuel ?b \<le> 110" by (simp add: searchFuel_def)
  have "minimax 40 ?b 0 True SymO SymX \<noteq> None" by code_simp
  then obtain v b' where m: "minimax 40 ?b 0 True SymO SymX = Some (v, b')" by auto
  with bestMove_restores_board[where board = ?b and fuel = 40 and depth = 0 and isMax = True
      and ai = SymO and human = SymX]
  have "b' = ?b" by blast
  with m f bestMove_restores_board[where board = ?b and fuel = 110 and ai = SymO and human = SymX
      and r = 0]
  show ?thesis by simp
qed


end
